theory Spec2Isabelle
  imports Main
begin

section \<open>The contact registry of DChat (src/contact.c)\<close>

text \<open>
  A shallow embedding of \<^verbatim>\<open>contact.c\<close>: the wire codec of a contact
  (\<^verbatim>\<open>contact_to_string\<close>, \<^verbatim>\<open>string_to_contact\<close>), the contact list
  (\<^verbatim>\<open>realloc_contactlist\<close>, \<^verbatim>\<open>add_contact\<close>, \<^verbatim>\<open>del_contact\<close>,
  \<^verbatim>\<open>find_contact\<close>), the duplicate detection (\<^verbatim>\<open>check_duplicates\<close>) and the
  parsing of a received contact list (\<^verbatim>\<open>receive_contacts\<close>).

  Conventions of the model.
  \<^item> A C string is the list of its characters before the terminating NUL, so a
    \<^verbatim>\<open>char*\<close> that is \<^verbatim>\<open>NULL\<close> is \<open>None\<close> and the test
    \<^verbatim>\<open>ptr[0] != '\0'\<close> is \<open>ptr \<noteq> []\<close>.
  \<^item> The global \<^verbatim>\<open>_cnf\<close> is passed explicitly and returned updated.
  \<^item> A function that the C code can drive into undefined behaviour (a NULL pointer
    handed to \<^verbatim>\<open>strcmp\<close>, a read outside the contact array) returns an
    \<open>option\<close>, and \<open>None\<close> is that undefined behaviour.
  \<^item> \<^verbatim>\<open>malloc\<close> is taken to succeed: on failure the code calls
    \<^verbatim>\<open>ui_fatal\<close>, which ends the process.
  \<^item> \<^verbatim>\<open>int\<close> variables that count or index contacts are unbounded integers;
    the one place where a width matters, the cast of the \<^verbatim>\<open>long\<close> that
    \<^verbatim>\<open>strtol\<close> returns, has the wrap-around written out.
\<close>

subsection \<open>Declarations that contact.c takes from its headers\<close>

text \<open>
  The headers under \<^verbatim>\<open>dchat_h/\<close> are not among the source files. The constants
  and the address predicate that \<^verbatim>\<open>contact.c\<close> takes from them are parameters
  of the model; \<open>LONG_BIT\<close> is the width of \<^verbatim>\<open>long\<close> on the platform.
\<close>

record headers =
  INIT_CONTACTS :: int
  ONION_ADDRLEN :: nat
  MAX_INT_STR :: nat
  LONG_BIT :: nat
  is_valid_onion :: "string \<Rightarrow> bool"

text \<open>
  Modelled from the spec: \<^verbatim>\<open>is_valid_port\<close> of the absent \<^verbatim>\<open>util.c\<close>.
  The spec: "listening_port: integer 1..65535; must satisfy a validity predicate" and
  "ports are bounded to the valid 1..65535 range (0 is reserved to mean unset/pending)".
\<close>

definition is_valid_port :: "int \<Rightarrow> bool" where
  "is_valid_port p = (1 \<le> p \<and> p \<le> 65535)"

text \<open>
  \<^verbatim>\<open>contact_t\<close> (declared in the absent \<^verbatim>\<open>types.h\<close>), with the fields that
  \<^verbatim>\<open>contact.c\<close> reads and writes. \<open>accepted\<close> is tested as a truth value.
\<close>

record contact_t =
  fd :: int
  name :: string
  onion_id :: string
  lport :: int
  accepted :: bool

text \<open>The contact that \<^verbatim>\<open>memset(..., 0, sizeof(contact_t))\<close> leaves behind.\<close>

definition zero_contact :: contact_t where
  "zero_contact = \<lparr>fd = 0, name = [], onion_id = [], lport = 0, accepted = False\<rparr>"

record contactlist_t =
  contact :: "contact_t list"
  cl_size :: int
  used_contacts :: int

text \<open>
  The global configuration. \<open>closed_fds\<close> is not a field of the C structure: it logs
  the descriptors handed to \<^verbatim>\<open>close\<close>, latest first.
\<close>

record dchat_conf_t =
  cl :: contactlist_t
  me :: contact_t
  closed_fds :: "int list"

subsection \<open>C library functions used by the codec\<close>

text \<open>The character \<^verbatim>\<open>'0' + d\<close> of a decimal digit \<open>d\<close>.\<close>

definition digit_char :: "nat \<Rightarrow> char" where
  "digit_char d = ''0123456789'' ! d"

text \<open>The decimal digits that \<^verbatim>\<open>snprintf(..., "%u", n)\<close> prints.\<close>

fun utoa :: "nat \<Rightarrow> string" where
  "utoa n = (if n < 10 then [digit_char n] else utoa (n div 10) @ [digit_char (n mod 10)])"

declare utoa.simps [simp del]

text \<open>
  \<^verbatim>\<open>strcmp\<close> compares as unsigned characters; only the sign of its result is
  specified, so the model returns -1, 0 or 1.
\<close>

fun strcmp :: "string \<Rightarrow> string \<Rightarrow> int" where
  "strcmp [] [] = 0"
| "strcmp [] (b # bs) = - 1"
| "strcmp (a # as) [] = 1"
| "strcmp (a # as) (b # bs) =
     (if a = b then strcmp as bs
      else if (of_char a :: nat) < of_char b then - 1 else 1)"

text \<open>
  \<^verbatim>\<open>strtok_r\<close> with a one-character delimiter set, on the rest of the string it
  was left at: it skips leading delimiters, returns \<^verbatim>\<open>NULL\<close> when nothing
  is left, and otherwise the token up to the next delimiter together with the new
  save pointer (behind that delimiter, or at the end of the string).
\<close>

definition strtok_r :: "string \<Rightarrow> char \<Rightarrow> (string \<times> string) option" where
  "strtok_r s d =
     (let s' = dropWhile (\<lambda>c. c = d) s in
      if s' = [] then None
      else Some (takeWhile (\<lambda>c. c \<noteq> d) s', drop 1 (dropWhile (\<lambda>c. c \<noteq> d) s')))"

definition isspace :: "char \<Rightarrow> bool" where
  "isspace c = (c = CHR '' '' \<or> (9 \<le> (of_char c :: nat) \<and> (of_char c :: nat) \<le> 13))"

definition isdigit :: "char \<Rightarrow> bool" where
  "isdigit c = (48 \<le> (of_char c :: nat) \<and> (of_char c :: nat) \<le> 57)"

definition digit_val :: "char \<Rightarrow> int" where
  "digit_val c = int (of_char c) - 48"

definition digits_val :: "string \<Rightarrow> int" where
  "digits_val ds = foldl (\<lambda>a c. 10 * a + digit_val c) 0 ds"

text \<open>
  \<^verbatim>\<open>strtol(s, &ptr, 10)\<close>: white space, an optional sign, decimal digits. The
  result is the value, clamped to the range of \<^verbatim>\<open>long\<close>, and \<open>ptr\<close>, the
  rest of the string behind the digits; with no digit at all the value is 0 and
  \<open>ptr\<close> is \<open>s\<close> itself.
\<close>

definition strtol :: "nat \<Rightarrow> string \<Rightarrow> int \<times> string" where
  "strtol long_bit s =
     (let s1 = dropWhile isspace s;
          neg = (take 1 s1 = ''-'');
          s2 = (if take 1 s1 = ''-'' \<or> take 1 s1 = ''+'' then drop 1 s1 else s1);
          ds = takeWhile isdigit s2;
          v = (if neg then - digits_val ds else digits_val ds)
      in if ds = [] then (0, s)
         else (max (- (2 ^ (long_bit - 1))) (min (2 ^ (long_bit - 1) - 1) v),
               dropWhile isdigit s2))"

text \<open>The cast \<^verbatim>\<open>(int)\<close> of a \<^verbatim>\<open>long\<close>: the low 32 bits, read as signed.\<close>

definition int_cast :: "int \<Rightarrow> int" where
  "int_cast v = (v + 2 ^ 31) mod 2 ^ 32 - 2 ^ 31"

subsection \<open>The wire codec\<close>

text \<open>
  \<^verbatim>\<open>contact_to_string\<close>: \<open>None\<close> is the \<^verbatim>\<open>NULL\<close> it returns for a contact
  that fails validation. \<^verbatim>\<open>snprintf\<close> writes at most \<open>MAX_INT_STR - 1\<close>
  characters, and \<^verbatim>\<open>port_str[5] = '\0'\<close> cuts the port after five.
\<close>

definition contact_to_string :: "headers \<Rightarrow> contact_t \<Rightarrow> string option" where
  "contact_to_string h c =
     (if \<not> is_valid_onion h (onion_id c) then None
      else if \<not> is_valid_port (lport c) then None
      else let port_str = take 5 (take (MAX_INT_STR h - 1) (utoa (nat (lport c))))
           in Some (onion_id c @ '' '' @ port_str @ [CHR 0x0A]))"

text \<open>
  \<^verbatim>\<open>string_to_contact\<close>: \<open>None\<close> is the return value -1 (the contact is then
  untouched), \<open>Some c'\<close> is the return value 0 with the contact as written.
  \<^verbatim>\<open>strncat\<close> copies at most \<open>ONION_ADDRLEN\<close> characters of the address.
\<close>

definition string_to_contact :: "headers \<Rightarrow> contact_t \<Rightarrow> string \<Rightarrow> contact_t option" where
  "string_to_contact h c string =
     (case strtok_r string CHR '' '' of
        None \<Rightarrow> None
      | Some (onion, save_ptr) \<Rightarrow>
          (case strtok_r save_ptr (CHR 0x0A) of
             None \<Rightarrow> None
           | Some (port, save_ptr') \<Rightarrow>
               if \<not> is_valid_onion h onion then None
               else let (v, ptr) = strtol (LONG_BIT h) port;
                        p = int_cast v
                    in if ptr \<noteq> [] \<or> \<not> is_valid_port p then None
                       else Some (c\<lparr>lport := p, onion_id := take (ONION_ADDRLEN h) onion\<rparr>)))"

subsection \<open>The contact list\<close>

text \<open>
  \<^verbatim>\<open>_cnf->cl.contact[i]\<close>: the contact at index \<open>i\<close>; \<open>None\<close> is a read
  outside the allocated array.
\<close>

definition slot :: "contactlist_t \<Rightarrow> int \<Rightarrow> contact_t option" where
  "slot l i = (if 0 \<le> i \<and> nat i < length (contact l) then Some (contact l ! nat i) else None)"

text \<open>
  The copy loop of \<^verbatim>\<open>realloc_contactlist\<close>, from index \<open>i\<close> on, with the new
  block and its write cursor \<open>j\<close>. \<open>None\<close>: a read outside the old block or a
  \<^verbatim>\<open>memcpy\<close> outside the new one.
\<close>

function copy_loop ::
  "contact_t list \<Rightarrow> int \<Rightarrow> int \<Rightarrow> contact_t list \<Rightarrow> int \<Rightarrow> contact_t list option" where
  "copy_loop old n i new j =
     (if i < n then
        (if 0 \<le> i \<and> nat i < length old then
           (if fd (old ! nat i) \<noteq> 0 then
              (if 0 \<le> j \<and> nat j < length new
               then copy_loop old n (i + 1) (new[nat j := old ! nat i]) (j + 1)
               else None)
            else copy_loop old n (i + 1) new j)
         else None)
      else Some new)"
  by pat_completeness auto
termination
  by (relation "measure (\<lambda>(old, n, i, new, j). nat (n - i))") auto

declare copy_loop.simps [simp del]

text \<open>
  \<^verbatim>\<open>realloc_contactlist\<close>: the result is the return value and the configuration
  afterwards.
\<close>

definition realloc_contactlist :: "int \<Rightarrow> dchat_conf_t \<Rightarrow> (int \<times> dchat_conf_t) option" where
  "realloc_contactlist newsize cnf =
     (if newsize < 1 \<or> newsize < used_contacts (cl cnf) then Some (- 1, cnf)
      else
        (case copy_loop (contact (cl cnf)) (cl_size (cl cnf)) 0
                (replicate (nat newsize) zero_contact) 0 of
           None \<Rightarrow> None
         | Some new_contact_list \<Rightarrow>
             Some (0, cnf\<lparr>cl := (cl cnf)\<lparr>cl_size := newsize, contact := new_contact_list\<rparr>\<rparr>)))"

text \<open>
  The search loop of \<^verbatim>\<open>add_contact\<close> from index \<open>i\<close> on: the first slot whose
  \<open>fd\<close> is 0 takes the descriptor. The result is the final \<open>i\<close>, which is what
  \<^verbatim>\<open>add_contact\<close> returns.
\<close>

function add_loop :: "int \<Rightarrow> dchat_conf_t \<Rightarrow> int \<Rightarrow> (int \<times> dchat_conf_t) option" where
  "add_loop fd' cnf i =
     (if i < cl_size (cl cnf) then
        (case slot (cl cnf) i of
           None \<Rightarrow> None
         | Some c \<Rightarrow>
             if fd c = 0
             then Some (i, cnf\<lparr>cl := (cl cnf)
                      \<lparr>contact := (contact (cl cnf))[nat i := c\<lparr>fd := fd'\<rparr>],
                       used_contacts := used_contacts (cl cnf) + 1\<rparr>\<rparr>)
             else add_loop fd' cnf (i + 1))
      else Some (i, cnf))"
  by pat_completeness auto
termination
  by (relation "measure (\<lambda>(fd', cnf, i). nat (cl_size (cl cnf) - i))") auto

declare add_loop.simps [simp del]

definition add_contact :: "headers \<Rightarrow> int \<Rightarrow> dchat_conf_t \<Rightarrow> (int \<times> dchat_conf_t) option" where
  "add_contact h fd' cnf =
     (if used_contacts (cl cnf) = cl_size (cl cnf) then
        (case realloc_contactlist (cl_size (cl cnf) + INIT_CONTACTS h) cnf of
           None \<Rightarrow> None
         | Some (rc, cnf') \<Rightarrow> if rc < 0 then Some (- 1, cnf') else add_loop fd' cnf' 0)
      else add_loop fd' cnf 0)"

definition del_contact :: "headers \<Rightarrow> int \<Rightarrow> dchat_conf_t \<Rightarrow> (int \<times> dchat_conf_t) option" where
  "del_contact h n cnf =
     (if n < 0 \<or> n \<ge> cl_size (cl cnf) then Some (- 1, cnf)
      else
        (case slot (cl cnf) n of
           None \<Rightarrow> None
         | Some c \<Rightarrow>
             if fd c = 0 then Some (0, cnf)
             else
               let cnf1 = cnf\<lparr>closed_fds := fd c # closed_fds cnf,
                              cl := (cl cnf)\<lparr>contact := (contact (cl cnf))[nat n := zero_contact],
                                             used_contacts := used_contacts (cl cnf) - 1\<rparr>\<rparr>
               in if used_contacts (cl cnf1) = cl_size (cl cnf1) - INIT_CONTACTS h
                     \<and> used_contacts (cl cnf1) \<noteq> 0
                  then (case realloc_contactlist (cl_size (cl cnf1) - INIT_CONTACTS h) cnf1 of
                          None \<Rightarrow> None
                        | Some (rc, cnf2) \<Rightarrow> if rc < 0 then Some (- 1, cnf2) else Some (0, cnf2))
                  else Some (0, cnf1)))"

text \<open>
  The comparison inside the loop of \<^verbatim>\<open>find_contact\<close>:
  \<^verbatim>\<open>strcmp(contact_to_string(contact), contact_to_string(c)) == 0\<close>. \<open>None\<close>:
  one of the two strings is \<^verbatim>\<open>NULL\<close>.
\<close>

definition same_string :: "headers \<Rightarrow> contact_t \<Rightarrow> contact_t \<Rightarrow> bool option" where
  "same_string h c1 c2 =
     (case contact_to_string h c1 of
        None \<Rightarrow> None
      | Some a \<Rightarrow>
          (case contact_to_string h c2 of
             None \<Rightarrow> None
           | Some b \<Rightarrow> Some (strcmp a b = 0)))"

text \<open>The iterations of the loop of \<^verbatim>\<open>find_contact\<close> over the contact list, from \<open>i\<close> on.\<close>

function find_loop :: "headers \<Rightarrow> dchat_conf_t \<Rightarrow> contact_t \<Rightarrow> int \<Rightarrow> int option" where
  "find_loop h cnf c0 i =
     (if i < cl_size (cl cnf) then
        (case slot (cl cnf) i of
           None \<Rightarrow> None
         | Some c \<Rightarrow>
             if lport c \<noteq> 0 then
               (case same_string h c0 c of
                  None \<Rightarrow> None
                | Some eq \<Rightarrow> if eq then Some i else find_loop h cnf c0 (i + 1))
             else find_loop h cnf c0 (i + 1))
      else Some (- 2))"
  by pat_completeness auto
termination
  by (relation "measure (\<lambda>(h, cnf, c0, i). nat (cl_size (cl cnf) - i))") auto

declare find_loop.simps [simp del]

text \<open>
  \<^verbatim>\<open>find_contact\<close>. The loop starts at \<open>i = -1\<close>, where it looks at
  \<^verbatim>\<open>_cnf->me\<close> and sets \<open>i = begin - 1\<close> before it compares; a match returns
  that \<open>i\<close>. The increment then takes it to \<open>begin\<close>.
\<close>

definition find_contact :: "headers \<Rightarrow> dchat_conf_t \<Rightarrow> contact_t \<Rightarrow> int \<Rightarrow> int option" where
  "find_contact h cnf c0 begin =
     (if begin < 0 \<or> begin \<ge> cl_size (cl cnf) then Some (- 2)
      else if lport (me cnf) \<noteq> 0 then
        (case same_string h c0 (me cnf) of
           None \<Rightarrow> None
         | Some eq \<Rightarrow> if eq then Some (begin - 1) else find_loop h cnf c0 begin)
      else find_loop h cnf c0 begin)"

subsection \<open>Duplicate detection\<close>

text \<open>
  \<^verbatim>\<open>check_duplicates\<close>. The address of \<^verbatim>\<open>_cnf->cl.contact[n]\<close> is taken
  without a bounds check and handed to \<^verbatim>\<open>find_contact\<close>, so an index outside the
  array is undefined behaviour, \<open>None\<close>.
\<close>

definition check_duplicates :: "headers \<Rightarrow> int \<Rightarrow> dchat_conf_t \<Rightarrow> int option" where
  "check_duplicates h n cnf =
     (case slot (cl cnf) n of
        None \<Rightarrow> None
      | Some cn \<Rightarrow>
          (case find_contact h cnf cn 0 of
             None \<Rightarrow> None
           | Some fst_oc \<Rightarrow>
               if fst_oc = - 1 then Some n
               else if fst_oc = - 2 then Some (- 1)
               else
                 (case find_contact h cnf cn (fst_oc + 1) of
                    None \<Rightarrow> None
                  | Some sec_oc \<Rightarrow>
                      if sec_oc = - 2 then Some (- 1)
                      else
                        (case slot (cl cnf) fst_oc of
                           None \<Rightarrow> None
                         | Some temp \<Rightarrow>
                             let accept_contact = (if accepted temp then fst_oc else sec_oc);
                                 connect_contact = (if accepted temp then sec_oc else fst_oc);
                                 ret = strcmp (onion_id (me cnf)) (onion_id cn)
                             in if ret > 0 then Some connect_contact
                                else if ret < 0 then Some accept_contact
                                else if lport (me cnf) > lport cn then Some connect_contact
                                else if lport (me cnf) < lport cn then Some accept_contact
                                else Some accept_contact))))"

subsection \<open>Receiving a contact list\<close>

record dchat_pdu_t =
  content :: string
  content_length :: int

text \<open>
  Modelled from the spec: \<^verbatim>\<open>get_content_part\<close> of the absent \<^verbatim>\<open>decoder.c\<close>,
  the spec's "extract_line(message, start_offset) -> (line, next_offset) | error
  (delimiter-based content splitting)", which "splits the message body into
  newline-terminated lines". \<open>None\<close> is the return value -1: the offset is outside
  the content, or no terminator follows it. Otherwise the result is the offset of the
  first terminator at or behind \<open>offset\<close> (the caller adds one "to point to the
  beginning of the next line") and the line, from \<open>offset\<close> up to and with that
  terminator.
\<close>

definition get_content_part :: "dchat_pdu_t \<Rightarrow> int \<Rightarrow> char \<Rightarrow> (int \<times> string) option" where
  "get_content_part pdu offset term =
     (let rest = drop (nat offset) (take (nat (content_length pdu)) (content pdu)) in
      if offset < 0 \<or> offset \<ge> content_length pdu \<or> term \<notin> set rest then None
      else Some (offset + int (length (takeWhile (\<lambda>c. c \<noteq> term) rest)),
                 takeWhile (\<lambda>c. c \<noteq> term) rest @ [term]))"

text \<open>The local variables of \<^verbatim>\<open>receive_contacts\<close>, and the configuration.\<close>

record receive_state =
  rcontact :: contact_t
  ret :: int
  new_contacts :: int
  known_contacts :: int
  line_end :: int
  conf :: dchat_conf_t

text \<open>How a run of the loop of \<^verbatim>\<open>receive_contacts\<close> ends.\<close>

datatype 'a run = Returns 'a | Undefined_Behaviour | Out_Of_Fuel

text \<open>
  The \<^verbatim>\<open>while\<close> loop of \<^verbatim>\<open>receive_contacts\<close>, with fuel: one unit for each
  evaluation of the loop condition. \<open>connect\<close> is the absent
  \<^verbatim>\<open>handle_local_conn_request\<close>: from address, port and configuration to its return
  value and the configuration it leaves. A \<^verbatim>\<open>continue\<close> goes back to the loop
  condition with \<open>line_end\<close> as \<^verbatim>\<open>get_content_part\<close> returned it.
\<close>

fun receive_loop ::
  "nat \<Rightarrow> headers \<Rightarrow> (string \<Rightarrow> int \<Rightarrow> dchat_conf_t \<Rightarrow> int \<times> dchat_conf_t) \<Rightarrow> dchat_pdu_t \<Rightarrow>
   receive_state \<Rightarrow> receive_state run" where
  "receive_loop 0 h connect pdu st = Out_Of_Fuel"
| "receive_loop (Suc fuel) h connect pdu st =
     (if line_end st < content_length pdu then
        (case get_content_part pdu (line_end st) (CHR 0x0A) of
           None \<Rightarrow> Returns (st\<lparr>line_end := - 1, ret := - 1\<rparr>)
         | Some (e, line) \<Rightarrow>
             (case string_to_contact h (rcontact st) line of
                None \<Rightarrow> receive_loop fuel h connect pdu (st\<lparr>line_end := e, ret := - 1\<rparr>)
              | Some c \<Rightarrow>
                  (case find_contact h (conf st) c 0 of
                     None \<Rightarrow> Undefined_Behaviour
                   | Some r \<Rightarrow>
                       if r = - 2 then
                         (let (rc, cnf') = connect (onion_id c) (lport c) (conf st)
                          in receive_loop fuel h connect pdu
                               (st\<lparr>rcontact := c, line_end := e + 1,
                                   new_contacts := new_contacts st + 1,
                                   ret := (if rc = - 1 then - 1 else ret st),
                                   conf := cnf'\<rparr>))
                       else receive_loop fuel h connect pdu
                              (st\<lparr>rcontact := c, line_end := e + 1,
                                  known_contacts := known_contacts st + 1\<rparr>))))
      else Returns st)"

text \<open>
  \<^verbatim>\<open>receive_contacts\<close>: the return value and the configuration afterwards. The
  local \<^verbatim>\<open>contact\<close> is not initialised in C; \<open>c0\<close> is what it holds.
\<close>

definition receive_contacts ::
  "nat \<Rightarrow> headers \<Rightarrow> (string \<Rightarrow> int \<Rightarrow> dchat_conf_t \<Rightarrow> int \<times> dchat_conf_t) \<Rightarrow> contact_t \<Rightarrow>
   dchat_pdu_t \<Rightarrow> dchat_conf_t \<Rightarrow> (int \<times> dchat_conf_t) run" where
  "receive_contacts fuel h connect c0 pdu cnf =
     (case receive_loop fuel h connect pdu
             \<lparr>rcontact = c0, ret = 0, new_contacts = 0, known_contacts = 0, line_end = 0,
              conf = cnf\<rparr> of
        Returns st \<Rightarrow> Returns (if ret st \<noteq> - 1 then new_contacts st else - 1, conf st)
      | Undefined_Behaviour \<Rightarrow> Undefined_Behaviour
      | Out_Of_Fuel \<Rightarrow> Out_Of_Fuel)"

subsection \<open>Well-formed contacts, headers and stores\<close>

text \<open>A contact that passes both checks of \<^verbatim>\<open>contact_to_string\<close>.\<close>

definition valid_contact :: "headers \<Rightarrow> contact_t \<Rightarrow> bool" where
  "valid_contact h c = (is_valid_onion h (onion_id c) \<and> is_valid_port (lport c))"

text \<open>
  Modelled from the spec: what is known of the absent declarations. The address
  predicate is "a fixed-format predicate (no embedded spaces/newlines)" on a non-empty
  token, and the "maximum address length is a fixed bound", \<open>ONION_ADDRLEN\<close>. The
  buffer of \<open>MAX_INT_STR + 1\<close> characters holds the "max. characters of an int"
  (the comment in \<^verbatim>\<open>contact_to_string\<close>), so five digits fit, and a
  \<^verbatim>\<open>long\<close> has at least 32 bits.
\<close>

definition headers_ok :: "headers \<Rightarrow> bool" where
  "headers_ok h =
     (6 \<le> MAX_INT_STR h \<and> 32 \<le> LONG_BIT h \<and>
      (\<forall>s. is_valid_onion h s \<longrightarrow>
             s \<noteq> [] \<and> CHR '' '' \<notin> set s \<and> CHR 0x0A \<notin> set s \<and> length s \<le> ONION_ADDRLEN h))"

text \<open>A slot is occupied when its descriptor is set: the test \<^verbatim>\<open>old_contact_list[i].fd\<close>.\<close>

definition occupied :: "contact_t \<Rightarrow> bool" where
  "occupied c = (fd c \<noteq> 0)"

text \<open>
  The invariant of the contact list: at least one slot, the array has \<open>cl_size\<close>
  slots, and \<open>used_contacts\<close> counts the occupied ones.
\<close>

definition store_inv :: "dchat_conf_t \<Rightarrow> bool" where
  "store_inv cnf =
     (1 \<le> cl_size (cl cnf) \<and>
      length (contact (cl cnf)) = nat (cl_size (cl cnf)) \<and>
      used_contacts (cl cnf) = int (length (filter occupied (contact (cl cnf)))))"

text \<open>
  A well-formed configuration: the array has \<open>cl_size\<close> slots, and every confirmed
  contact (a slot or \<^verbatim>\<open>_cnf->me\<close> with \<open>lport \<noteq> 0\<close>) has a valid address and
  port, as the data model of the spec requires of a contact. \<^verbatim>\<open>find_contact\<close>
  hands the string form of every confirmed contact it meets to \<^verbatim>\<open>strcmp\<close>.
\<close>

definition conf_wf :: "headers \<Rightarrow> dchat_conf_t \<Rightarrow> bool" where
  "conf_wf h cnf =
     (length (contact (cl cnf)) = nat (cl_size (cl cnf)) \<and>
      (\<forall>c\<in>set (contact (cl cnf)). lport c \<noteq> 0 \<longrightarrow> valid_contact h c) \<and>
      (lport (me cnf) \<noteq> 0 \<longrightarrow> valid_contact h (me cnf)))"

text \<open>Two contacts with the same address and the same port.\<close>

definition same_peer :: "contact_t \<Rightarrow> contact_t \<Rightarrow> bool" where
  "same_peer a b = (onion_id a = onion_id b \<and> lport a = lport b)"

text \<open>
  The indices of the confirmed slots that hold the address and port of \<open>c0\<close>, in
  ascending order.
\<close>

definition occurrences :: "contact_t \<Rightarrow> contact_t list \<Rightarrow> nat list" where
  "occurrences c0 cs = filter (\<lambda>k. lport (cs ! k) \<noteq> 0 \<and> same_peer c0 (cs ! k)) [0..<length cs]"

text \<open>
  The comparison of \<^verbatim>\<open>check_duplicates\<close> that selects the contact added by a
  connect: the local address is greater, or the addresses are equal and the local
  port is greater.
\<close>

definition self_greater :: "contact_t \<Rightarrow> contact_t \<Rightarrow> bool" where
  "self_greater self c =
     (strcmp (onion_id self) (onion_id c) > 0 \<or>
      (strcmp (onion_id self) (onion_id c) = 0 \<and> lport self > lport c))"

subsection \<open>Stores built by adding contacts\<close>

text \<open>A slot right after \<^verbatim>\<open>add_contact\<close> stored a descriptor in it.\<close>

definition new_slot :: "int \<Rightarrow> contact_t" where
  "new_slot f = zero_contact\<lparr>fd := f\<rparr>"

text \<open>
  The configuration whose contact list holds the descriptors \<open>fds\<close> in its first
  slots, in this order, followed by \<open>r\<close> empty slots.
\<close>

definition filled :: "contact_t \<Rightarrow> int list \<Rightarrow> int list \<Rightarrow> nat \<Rightarrow> dchat_conf_t" where
  "filled self closed fds r =
     \<lparr>cl = \<lparr>contact = map new_slot fds @ replicate r zero_contact,
            cl_size = int (length fds + r), used_contacts = int (length fds)\<rparr>,
      me = self, closed_fds = closed\<rparr>"

text \<open>Sequences of calls of \<^verbatim>\<open>add_contact\<close> and \<^verbatim>\<open>del_contact\<close>.\<close>

datatype store_op = Add int | Del int

text \<open>
  Running a sequence of calls: the return values, in order, and the configuration at
  the end; \<open>None\<close> when a call runs into undefined behaviour.
\<close>

fun run_ops :: "headers \<Rightarrow> store_op list \<Rightarrow> dchat_conf_t \<Rightarrow> (int list \<times> dchat_conf_t) option" where
  "run_ops h [] cnf = Some ([], cnf)"
| "run_ops h (Add f # ops) cnf =
     (case add_contact h f cnf of
        None \<Rightarrow> None
      | Some (rc, cnf') \<Rightarrow>
          (case run_ops h ops cnf' of None \<Rightarrow> None | Some (rcs, cnf'') \<Rightarrow> Some (rc # rcs, cnf'')))"
| "run_ops h (Del n # ops) cnf =
     (case del_contact h n cnf of
        None \<Rightarrow> None
      | Some (rc, cnf') \<Rightarrow>
          (case run_ops h ops cnf' of None \<Rightarrow> None | Some (rcs, cnf'') \<Rightarrow> Some (rc # rcs, cnf'')))"

text \<open>The empty contact list with \<open>k\<close> slots.\<close>

definition empty_store :: "contact_t \<Rightarrow> int \<Rightarrow> dchat_conf_t" where
  "empty_store self k = filled self [] [] (nat k)"

subsection \<open>Sample instances\<close>

text \<open>
  An instance of the header declarations, to evaluate the model at concrete inputs:
  addresses of sixteen base32 characters followed by \<^verbatim>\<open>.onion\<close>, an increment
  of two contacts and a 64-bit \<^verbatim>\<open>long\<close>.
\<close>

definition is_base32 :: "char \<Rightarrow> bool" where
  "is_base32 c =
     ((97 \<le> (of_char c :: nat) \<and> (of_char c :: nat) \<le> 122) \<or>
      (50 \<le> (of_char c :: nat) \<and> (of_char c :: nat) \<le> 55))"

definition sample_onion :: "string \<Rightarrow> bool" where
  "sample_onion s =
     (length s = 22 \<and> drop 16 s = ''.onion'' \<and> list_all is_base32 (take 16 s))"

definition sample_headers :: headers where
  "sample_headers =
     \<lparr>INIT_CONTACTS = 2, ONION_ADDRLEN = 22, MAX_INT_STR = 10, LONG_BIT = 64,
      is_valid_onion = sample_onion\<rparr>"

definition peer :: "string \<Rightarrow> int \<Rightarrow> int \<Rightarrow> bool \<Rightarrow> contact_t" where
  "peer a p f acc = \<lparr>fd = f, name = [], onion_id = a, lport = p, accepted = acc\<rparr>"

definition addr_a :: string where
  "addr_a = ''aaaaaaaaaaaaaaaa.onion''"

definition addr_b :: string where
  "addr_b = ''bbbbbbbbbbbbbbbb.onion''"

text \<open>
  A store of capacity 4 with two confirmed contacts, at the indices 0 and 2, of the
  peer at \<^verbatim>\<open>mmmmmmmmmmmmmmmm.onion\<close>, port 7000.
\<close>

definition sample_conf :: dchat_conf_t where
  "sample_conf =
     \<lparr>cl = \<lparr>contact = [peer addr_a 9001 3 False, zero_contact, peer addr_b 9002 4 True,
                      zero_contact],
            cl_size = 4, used_contacts = 2\<rparr>,
      me = peer ''mmmmmmmmmmmmmmmm.onion'' 7000 0 False,
      closed_fds = []\<rparr>"

definition addr_m :: string where
  "addr_m = ''mmmmmmmmmmmmmmmm.onion''"

text \<open>
  The peer at \<open>addr_m\<close>, port 7000, holds two links to the peer at \<open>addr_a\<close>, port
  9001: it connected (slot 0) and it accepted (slot 2). \<open>dup_conf_swapped\<close> is the
  same with the two slots exchanged, and \<open>dup_conf_remote\<close> is the store of the peer
  at \<open>addr_a\<close>, which holds the same two links from its side.
\<close>

definition dup_conf :: dchat_conf_t where
  "dup_conf =
     \<lparr>cl = \<lparr>contact = [peer addr_a 9001 3 False, zero_contact, peer addr_a 9001 4 True,
                      zero_contact],
            cl_size = 4, used_contacts = 2\<rparr>,
      me = peer addr_m 7000 0 False, closed_fds = []\<rparr>"

definition dup_conf_swapped :: dchat_conf_t where
  "dup_conf_swapped =
     \<lparr>cl = \<lparr>contact = [peer addr_a 9001 4 True, zero_contact, peer addr_a 9001 3 False,
                      zero_contact],
            cl_size = 4, used_contacts = 2\<rparr>,
      me = peer addr_m 7000 0 False, closed_fds = []\<rparr>"

definition dup_conf_remote :: dchat_conf_t where
  "dup_conf_remote =
     \<lparr>cl = \<lparr>contact = [peer addr_m 7000 8 True, peer addr_m 7000 9 False],
            cl_size = 2, used_contacts = 2\<rparr>,
      me = peer addr_a 9001 0 False, closed_fds = []\<rparr>"

text \<open>
  Two peers that both announce \<open>addr_a\<close>, port 9001, and hold two links to each
  other.
\<close>

definition dup_self_conf :: dchat_conf_t where
  "dup_self_conf =
     \<lparr>cl = \<lparr>contact = [peer addr_a 9001 3 False, peer addr_a 9001 4 True],
            cl_size = 2, used_contacts = 2\<rparr>,
      me = peer addr_a 9001 0 False, closed_fds = []\<rparr>"

definition dup_self_remote :: dchat_conf_t where
  "dup_self_remote =
     \<lparr>cl = \<lparr>contact = [peer addr_a 9001 5 True, peer addr_a 9001 6 False],
            cl_size = 2, used_contacts = 2\<rparr>,
      me = peer addr_a 9001 0 False, closed_fds = []\<rparr>"

text \<open>
  A contact line whose port is \<open>2\<^sup>3\<^sup>2 + 1\<close>, and a received message whose only
  line has no space.
\<close>

definition overflow_line :: string where
  "overflow_line = ''aaaaaaaaaaaaaaaa.onion 4294967297\<newline>''"

definition bad_pdu :: dchat_pdu_t where
  "bad_pdu = \<lparr>content = ''x\<newline>'', content_length = 2\<rparr>"

text \<open>
  The message of the discovery scenario of the spec: two well-formed contact lines.
\<close>

definition two_lines_pdu :: dchat_pdu_t where
  "two_lines_pdu =
     \<lparr>content = ''aaaaaaaaaaaaaaaa.onion 9001\<newline>bbbbbbbbbbbbbbbb.onion 9002\<newline>'',
      content_length = 56\<rparr>"

section \<open>Properties\<close>

subsection \<open>C library functions\<close>

lemma strcmp_eq_0: "strcmp a b = 0 \<longleftrightarrow> a = b"
  by (induction a b rule: strcmp.induct) auto

lemma digit_char_cases:
  assumes "d < 10"
  shows "digit_val (digit_char d) = int d \<and> isdigit (digit_char d)"
proof -
  from assms have "d \<in> {0, 1, 2, 3, 4, 5, 6, 7, 8, 9}" by auto
  then show ?thesis
    by (auto simp: digit_char_def digit_val_def isdigit_def)
qed

lemma utoa_isdigit: "c \<in> set (utoa n) \<Longrightarrow> isdigit c"
proof (induction n rule: utoa.induct)
  case (1 n)
  show ?case
  proof (cases "n < 10")
    case True
    with "1.prems" show ?thesis by (simp add: utoa.simps[of n] digit_char_cases)
  next
    case False
    with "1.prems" "1.IH" show ?thesis
      by (auto simp: utoa.simps[of n] digit_char_cases)
  qed
qed

lemma utoa_nonempty: "utoa n \<noteq> []"
  by (subst utoa.simps) simp

lemma digits_val_snoc: "digits_val (ds @ [c]) = 10 * digits_val ds + digit_val c"
  by (simp add: digits_val_def)

lemma digits_val_utoa: "digits_val (utoa n) = int n"
proof (induction n rule: utoa.induct)
  case (1 n)
  show ?case
  proof (cases "n < 10")
    case True
    then show ?thesis by (simp add: utoa.simps[of n] digits_val_def digit_char_cases)
  next
    case False
    then have "digits_val (utoa n) = 10 * int (n div 10) + int (n mod 10)"
      using "1.IH" by (simp add: utoa.simps[of n] digits_val_snoc digit_char_cases)
    then show ?thesis by presburger
  qed
qed

lemma length_utoa: "n < 10 ^ k \<Longrightarrow> 0 < k \<Longrightarrow> length (utoa n) \<le> k"
proof (induction n arbitrary: k rule: utoa.induct)
  case (1 n)
  show ?case
  proof (cases "n < 10")
    case True
    with "1.prems" show ?thesis by (simp add: utoa.simps[of n])
  next
    case False
    then obtain k' where k: "k = Suc k'" using "1.prems" by (cases k) auto
    with False "1.prems" have "0 < k'" by (cases k') auto
    moreover from k "1.prems" have "n div 10 < 10 ^ k'" by auto
    ultimately have "length (utoa (n div 10)) \<le> k'" using "1.IH" False by blast
    with False k show ?thesis by (simp add: utoa.simps[of n])
  qed
qed

lemma utoa_inj: "utoa m = utoa n \<Longrightarrow> m = n"
  by (metis digits_val_utoa of_nat_eq_iff)

lemma strtok_r_token:
  assumes "a \<noteq> []" "d \<notin> set a"
  shows "strtok_r (a @ d # r) d = Some (a, r)"
proof -
  from assms obtain x xs where a: "a = x # xs" and x: "x \<noteq> d" by (cases a) auto
  have 1: "dropWhile (\<lambda>c. c = d) (a @ d # r) = a @ d # r" using a x by simp
  have 2: "takeWhile (\<lambda>c. c \<noteq> d) (a @ d # r) = a" using assms(2) by (induction a) auto
  have 3: "dropWhile (\<lambda>c. c \<noteq> d) (a @ d # r) = d # r" using assms(2) by (induction a) auto
  show ?thesis unfolding strtok_r_def Let_def 1 2 3 using a by simp
qed

lemma isdigit_not_special:
  "isdigit c \<Longrightarrow>
     \<not> isspace c \<and> c \<noteq> CHR ''-'' \<and> c \<noteq> CHR ''+'' \<and> c \<noteq> CHR '' '' \<and> c \<noteq> CHR 0x0A"
  by (auto simp: isdigit_def isspace_def)

lemma strtol_digits:
  assumes ne: "ds \<noteq> []" and dig: "\<forall>c\<in>set ds. isdigit c"
    and lo: "0 \<le> digits_val ds" and hi: "digits_val ds < 2 ^ (L - 1)"
  shows "strtol L ds = (digits_val ds, [])"
proof -
  from ne obtain x xs where ds: "ds = x # xs" by (cases ds) auto
  with dig have x: "isdigit x" by simp
  have 1: "dropWhile isspace ds = ds" using ds x isdigit_not_special by simp
  have 2: "take 1 ds \<noteq> ''-''" "take 1 ds \<noteq> ''+''" using ds x isdigit_not_special by auto
  have 3: "takeWhile isdigit ds = ds" "dropWhile isdigit ds = []" using dig by simp_all
  have 4: "max (- (2 ^ (L - 1))) (min (2 ^ (L - 1) - 1) (digits_val ds)) = digits_val ds"
    using lo hi by simp
  have "strtol L ds =
          (if takeWhile isdigit ds = [] then (0, ds)
           else (max (- (2 ^ (L - 1))) (min (2 ^ (L - 1) - 1) (digits_val (takeWhile isdigit ds))),
                 dropWhile isdigit ds))"
    unfolding strtol_def Let_def 1 using 2 by simp
  then show ?thesis unfolding 3 4 using ne by simp
qed

lemma int_cast_id: "0 \<le> v \<Longrightarrow> v < 2 ^ 31 \<Longrightarrow> int_cast v = v"
  by (simp add: int_cast_def)

lemma pow_mono_31: "32 \<le> L \<Longrightarrow> (2::int) ^ 31 \<le> 2 ^ (L - 1)"
  by (rule power_increasing) auto


subsection \<open>The sample instances are well-formed\<close>

lemma sample_onion_chars:
  assumes "sample_onion s"
  shows "s \<noteq> [] \<and> CHR '' '' \<notin> set s \<and> CHR 0x0A \<notin> set s \<and> length s \<le> 22"
proof -
  from assms have len: "length s = 22" and tl: "drop 16 s = ''.onion''"
    and hd: "list_all is_base32 (take 16 s)"
    by (simp_all add: sample_onion_def)
  have split: "set s = set (take 16 s) \<union> set (drop 16 s)"
    by (metis append_take_drop_id set_append)
  have b: "\<not> is_base32 CHR '' ''" "\<not> is_base32 (CHR 0x0A)"
    by (simp_all add: is_base32_def)
  from hd b have "CHR '' '' \<notin> set (take 16 s)" "CHR 0x0A \<notin> set (take 16 s)"
    unfolding list_all_iff by blast+
  moreover have "CHR '' '' \<notin> set (drop 16 s)" "CHR 0x0A \<notin> set (drop 16 s)"
    unfolding tl by simp_all
  moreover from len have "s \<noteq> []" by auto
  ultimately show ?thesis using len split by simp
qed

lemma sample_headers_ok: "headers_ok sample_headers"
  using sample_onion_chars by (simp add: headers_ok_def sample_headers_def)

lemma sample_onion_addr:
  "sample_onion addr_a" "sample_onion addr_b" "sample_onion ''mmmmmmmmmmmmmmmm.onion''"
  by (simp_all add: sample_onion_def addr_a_def addr_b_def is_base32_def)

subsection \<open>The wire codec\<close>

lemma port_str_utoa:
  assumes "6 \<le> MAX_INT_STR h" "is_valid_port p"
  shows "take 5 (take (MAX_INT_STR h - 1) (utoa (nat p))) = utoa (nat p)"
proof -
  from assms(2) have "nat p < 10 ^ 5" by (auto simp: is_valid_port_def)
  then have "length (utoa (nat p)) \<le> 5" by (rule length_utoa) simp
  with assms(1) show ?thesis by simp
qed

lemma contact_to_string_valid:
  assumes "headers_ok h" "valid_contact h c"
  shows "contact_to_string h c = Some (onion_id c @ '' '' @ utoa (nat (lport c)) @ [CHR 0x0A])"
  using assms port_str_utoa[of h "lport c"]
  by (simp add: contact_to_string_def valid_contact_def headers_ok_def)

lemma string_to_contact_line:
  assumes ok: "headers_ok h" and a: "is_valid_onion h a" and p: "is_valid_port p"
  shows "string_to_contact h c0 (a @ '' '' @ utoa (nat p) @ [CHR 0x0A]) =
           Some (c0\<lparr>lport := p, onion_id := a\<rparr>)"
proof -
  let ?u = "utoa (nat p)"
  from ok a have a': "a \<noteq> []" "CHR '' '' \<notin> set a" "length a \<le> ONION_ADDRLEN h"
    by (auto simp: headers_ok_def)
  have u: "?u \<noteq> []" "\<forall>c\<in>set ?u. isdigit c" by (auto simp: utoa_nonempty utoa_isdigit)
  then have nl: "CHR 0x0A \<notin> set ?u" using isdigit_not_special by blast
  have t1: "strtok_r (a @ '' '' @ ?u @ [CHR 0x0A]) CHR '' '' = Some (a, ?u @ [CHR 0x0A])"
    using strtok_r_token[OF a'(1) a'(2)] by simp
  have t2: "strtok_r (?u @ [CHR 0x0A]) (CHR 0x0A) = Some (?u, [])"
    using strtok_r_token[OF u(1) nl, of "[]"] by simp
  from p have pv: "digits_val ?u = p" "0 \<le> p" "p < 2 ^ 31"
    by (simp_all add: digits_val_utoa is_valid_port_def)
  from ok have "(2::int) ^ 31 \<le> 2 ^ (LONG_BIT h - 1)"
    by (intro pow_mono_31) (simp add: headers_ok_def)
  with pv have "digits_val ?u < 2 ^ (LONG_BIT h - 1)" by linarith
  with u pv have t3: "strtol (LONG_BIT h) ?u = (p, [])"
    using strtol_digits[of ?u "LONG_BIT h"] by simp
  show ?thesis
    unfolding string_to_contact_def t1 using t2 t3 a a' p pv
    by (simp add: int_cast_id)
qed

text \<open>
  C2 (round trip). For every contact \<open>c\<close> whose address passes the address predicate
  and whose port is in 1..65535, \<^verbatim>\<open>contact_to_string\<close> succeeds with the line
  "address, space, decimal port, newline"; \<^verbatim>\<open>string_to_contact\<close> on that line
  succeeds, writes exactly the address and the port of \<open>c\<close> into the contact it is
  given, and the contact it yields has the same string form as \<open>c\<close>, which is what
  \<^verbatim>\<open>find_contact\<close> compares.
\<close>

theorem contact_string_roundtrip:
  assumes "headers_ok h" and "is_valid_onion h (onion_id c)"
    and "1 \<le> lport c" and "lport c \<le> 65535"
  shows "contact_to_string h c = Some (onion_id c @ '' '' @ utoa (nat (lport c)) @ [CHR 0x0A])
       \<and> string_to_contact h c0 (onion_id c @ '' '' @ utoa (nat (lport c)) @ [CHR 0x0A])
           = Some (c0\<lparr>lport := lport c, onion_id := onion_id c\<rparr>)
       \<and> same_string h (c0\<lparr>lport := lport c, onion_id := onion_id c\<rparr>) c = Some True"
proof -
  from assms have v: "valid_contact h c" by (simp add: valid_contact_def is_valid_port_def)
  then have p: "is_valid_port (lport c)" by (simp add: valid_contact_def)
  let ?c' = "c0\<lparr>lport := lport c, onion_id := onion_id c\<rparr>"
  have "valid_contact h ?c'" using v by (simp add: valid_contact_def)
  then have "contact_to_string h ?c' = contact_to_string h c"
    using contact_to_string_valid[OF assms(1)] v by simp
  then have "same_string h ?c' c = Some True"
    using contact_to_string_valid[OF assms(1) v] by (simp add: same_string_def strcmp_eq_0)
  then show ?thesis
    using contact_to_string_valid[OF assms(1) v] string_to_contact_line[OF assms(1,2) p, of c0]
    by simp
qed

theorem contact_string_roundtrip_witness:
  "contact_to_string sample_headers (peer addr_a 9001 3 False)
     = Some ''aaaaaaaaaaaaaaaa.onion 9001\<newline>''
   \<and> string_to_contact sample_headers zero_contact ''aaaaaaaaaaaaaaaa.onion 9001\<newline>''
     = Some (zero_contact\<lparr>lport := 9001, onion_id := addr_a\<rparr>)
   \<and> same_string sample_headers (zero_contact\<lparr>lport := 9001, onion_id := addr_a\<rparr>)
       (peer addr_a 9001 3 False) = Some True"
proof -
  have 1: "headers_ok sample_headers" by (rule sample_headers_ok)
  have 2: "is_valid_onion sample_headers (onion_id (peer addr_a 9001 3 False))"
    by (simp add: sample_headers_def peer_def sample_onion_addr)
  have 3: "utoa (nat 9001) = ''9001''"
    by (simp add: utoa.simps digit_char_def)
  show ?thesis
    using contact_string_roundtrip[OF 1 2, of zero_contact] 3
    by (simp add: peer_def addr_a_def)
qed

text \<open>
  What \<^verbatim>\<open>string_to_contact\<close> rejects: a line without a space; a line whose
  address token fails the address predicate; a port token that does not start a
  number or that has anything behind its digits; and the ports 0 and 65536 to
  \<open>2\<^sup>3\<^sup>2\<close>.
\<close>

lemma string_to_contact_no_space:
  assumes "CHR '' '' \<notin> set line"
  shows "string_to_contact h c line = None"
proof (cases "line = []")
  case True
  then show ?thesis by (simp add: string_to_contact_def strtok_r_def)
next
  case False
  have 1: "dropWhile (\<lambda>c. c = CHR '' '') line = line"
    using assms False by (cases line) auto
  have 2: "takeWhile (\<lambda>c. c \<noteq> CHR '' '') line = line" "dropWhile (\<lambda>c. c \<noteq> CHR '' '') line = []"
    using assms by (induction line) auto
  have "strtok_r line CHR '' '' = Some (line, [])"
    unfolding strtok_r_def Let_def 1 2 using False by simp
  moreover have "strtok_r [] (CHR 0x0A) = None" by (simp add: strtok_r_def)
  ultimately show ?thesis by (simp add: string_to_contact_def)
qed

lemma string_to_contact_tokens:
  assumes "a \<noteq> []" and "CHR '' '' \<notin> set a" and "p \<noteq> []" and "CHR 0x0A \<notin> set p"
  shows "string_to_contact h c (a @ '' '' @ p @ [CHR 0x0A]) =
           (if \<not> is_valid_onion h a then None
            else if snd (strtol (LONG_BIT h) p) \<noteq> []
                    \<or> \<not> is_valid_port (int_cast (fst (strtol (LONG_BIT h) p))) then None
            else Some (c\<lparr>lport := int_cast (fst (strtol (LONG_BIT h) p)),
                         onion_id := take (ONION_ADDRLEN h) a\<rparr>))"
proof -
  have t1: "strtok_r (a @ '' '' @ p @ [CHR 0x0A]) CHR '' '' = Some (a, p @ [CHR 0x0A])"
    using strtok_r_token[OF assms(1,2)] by simp
  have t2: "strtok_r (p @ [CHR 0x0A]) (CHR 0x0A) = Some (p, [])"
    using strtok_r_token[OF assms(3,4), of "[]"] by simp
  show ?thesis
    unfolding string_to_contact_def t1 using t2
    by (simp add: split_beta Let_def)
qed

lemma strtol_digits_clamped:
  assumes ne: "ds \<noteq> []" and dig: "\<forall>c\<in>set ds. isdigit c"
  shows "strtol L ds =
           (max (- (2 ^ (L - 1))) (min (2 ^ (L - 1) - 1) (digits_val ds)), [])"
proof -
  from ne obtain x xs where ds: "ds = x # xs" by (cases ds) auto
  with dig have x: "isdigit x" by simp
  have 1: "dropWhile isspace ds = ds" using ds x isdigit_not_special by simp
  have 2: "take 1 ds \<noteq> ''-''" "take 1 ds \<noteq> ''+''" using ds x isdigit_not_special by auto
  have 3: "takeWhile isdigit ds = ds" "dropWhile isdigit ds = []" using dig by simp_all
  have "strtol L ds =
          (if takeWhile isdigit ds = [] then (0, ds)
           else (max (- (2 ^ (L - 1))) (min (2 ^ (L - 1) - 1) (digits_val (takeWhile isdigit ds))),
                 dropWhile isdigit ds))"
    unfolding strtol_def Let_def 1 using 2 by simp
  then show ?thesis unfolding 3 using ne by simp
qed

lemma strtol_garbage:
  assumes "ds \<noteq> []" and "\<forall>c\<in>set ds. isdigit c" and "g \<noteq> []" and "\<not> isdigit (hd g)"
  shows "snd (strtol L (ds @ g)) = g"
proof -
  from assms(1) obtain x xs where ds: "ds = x # xs" by (cases ds) auto
  with assms(2) have x: "isdigit x" by simp
  from assms(3) obtain y ys where g: "g = y # ys" by (cases g) auto
  with assms(4) have y: "\<not> isdigit y" by simp
  have 1: "dropWhile isspace (ds @ g) = ds @ g" using ds x isdigit_not_special by simp
  have 2: "take 1 (ds @ g) \<noteq> ''-''" "take 1 (ds @ g) \<noteq> ''+''"
    using ds x isdigit_not_special by auto
  have 3: "takeWhile isdigit (ds @ g) = ds" "dropWhile isdigit (ds @ g) = g"
    using assms(2) g y by (simp_all add: takeWhile_append2 dropWhile_append2)
  have "snd (strtol L (ds @ g)) =
          snd (if takeWhile isdigit (ds @ g) = [] then (0 :: int, ds @ g)
               else (max (- (2 ^ (L - 1))) (min (2 ^ (L - 1) - 1) (digits_val (takeWhile isdigit (ds @ g)))),
                     dropWhile isdigit (ds @ g)))"
    unfolding strtol_def Let_def 1 using 2 by simp
  then show ?thesis unfolding 3 using assms(1) by simp
qed

lemma strtol_no_number:
  assumes "p \<noteq> []" and "\<not> isdigit (hd p)" and "\<not> isspace (hd p)"
    and "hd p \<noteq> CHR ''-''" and "hd p \<noteq> CHR ''+''"
  shows "snd (strtol L p) = p"
proof -
  from assms(1) obtain x xs where p: "p = x # xs" by (cases p) auto
  with assms have x: "\<not> isdigit x" "\<not> isspace x" "x \<noteq> CHR ''-''" "x \<noteq> CHR ''+''" by simp_all
  show ?thesis using x by (simp add: strtol_def p)
qed

lemma int_cast_range: "- (2 ^ 31) \<le> int_cast v \<and> int_cast v < 2 ^ 31"
  by (simp add: int_cast_def)

lemma int_cast_cases:
  assumes "0 \<le> v" and "v \<le> 2 ^ 32"
  shows "int_cast v = v \<or> int_cast v \<le> 0"
proof (cases "v < 2 ^ 31")
  case True
  with assms show ?thesis by (simp add: int_cast_id)
next
  case False
  with assms have "(v + 2 ^ 31) div 2 ^ 32 = (1::int)" by simp
  then have "(v + 2 ^ 31) mod 2 ^ 32 = v + 2 ^ 31 - 2 ^ 32"
    by (metis minus_div_mult_eq_mod mult.commute mult.right_neutral)
  with assms show ?thesis by (simp add: int_cast_def)
qed

lemma string_to_contact_port_range:
  assumes a: "a \<noteq> []" "CHR '' '' \<notin> set a" and L: "32 \<le> LONG_BIT h"
    and n: "n = 0 \<or> (65535 < n \<and> n \<le> 2 ^ 32)"
  shows "string_to_contact h c (a @ '' '' @ utoa n @ [CHR 0x0A]) = None"
proof -
  let ?u = "utoa n"
  have u: "?u \<noteq> []" "\<forall>c\<in>set ?u. isdigit c" by (auto simp: utoa_nonempty utoa_isdigit)
  then have nl: "CHR 0x0A \<notin> set ?u" using isdigit_not_special by blast
  let ?v = "fst (strtol (LONG_BIT h) ?u)"
  have v: "?v = max (- (2 ^ (LONG_BIT h - 1))) (min (2 ^ (LONG_BIT h - 1) - 1) (int n))"
    using strtol_digits_clamped[OF u, of "LONG_BIT h"] by (simp add: digits_val_utoa)
  have p: "snd (strtol (LONG_BIT h) ?u) = []"
    using strtol_digits_clamped[OF u, of "LONG_BIT h"] by simp
  have big: "(2::int) ^ 31 \<le> 2 ^ (LONG_BIT h - 1)" by (rule pow_mono_31[OF L])
  have "\<not> is_valid_port (int_cast ?v)"
  proof (cases "n = 0")
    case True
    then have "?v = 0" using v by simp
    then show ?thesis by (simp add: int_cast_def is_valid_port_def)
  next
    case False
    with n have r: "65535 < n" "int n \<le> 2 ^ 32" by (simp_all add: of_nat_le_iff[symmetric, of n] del: of_nat_le_iff)
    then have "65535 < ?v \<and> ?v \<le> 2 ^ 32" unfolding v using big by auto
    then show ?thesis
      using int_cast_cases[of ?v] by (auto simp: is_valid_port_def)
  qed
  then show ?thesis
    using string_to_contact_tokens[OF a u(1) nl, of h c] by simp
qed

lemma string_to_contact_bad_address:
  assumes "a \<noteq> []" and "CHR '' '' \<notin> set a" and "p \<noteq> []" and "CHR 0x0A \<notin> set p"
    and "\<not> is_valid_onion h a"
  shows "string_to_contact h c (a @ '' '' @ p @ [CHR 0x0A]) = None"
  using string_to_contact_tokens[OF assms(1-4), of h c] assms(5) by simp

lemma string_to_contact_trailing_garbage:
  assumes "a \<noteq> []" and "CHR '' '' \<notin> set a"
    and "ds \<noteq> []" and "\<forall>c\<in>set ds. isdigit c"
    and "g \<noteq> []" and "\<not> isdigit (hd g)" and "CHR 0x0A \<notin> set g"
  shows "string_to_contact h c (a @ '' '' @ (ds @ g) @ [CHR 0x0A]) = None"
proof -
  have "CHR 0x0A \<notin> set ds" using assms(4) isdigit_not_special by blast
  with assms(7) have nl: "CHR 0x0A \<notin> set (ds @ g)" by simp
  have ne: "ds @ g \<noteq> []" using assms(3) by simp
  show ?thesis
    using string_to_contact_tokens[OF assms(1,2) ne nl, of h c]
      strtol_garbage[OF assms(3-6), of "LONG_BIT h"] assms(5)
    by simp
qed

lemma string_to_contact_not_numeric:
  assumes "a \<noteq> []" and "CHR '' '' \<notin> set a" and "p \<noteq> []" and "CHR 0x0A \<notin> set p"
    and "\<not> isdigit (hd p)" and "\<not> isspace (hd p)"
    and "hd p \<noteq> CHR ''-''" and "hd p \<noteq> CHR ''+''"
  shows "string_to_contact h c (a @ '' '' @ p @ [CHR 0x0A]) = None"
  using string_to_contact_tokens[OF assms(1-4), of h c]
    strtol_no_number[OF assms(3,5-8), of "LONG_BIT h"] assms(3)
  by simp

text \<open>
  C5 (rejection) fails on the code for a port greater than 65535. The claim:
  \<^verbatim>\<open>string_to_contact\<close> returns an error for every line with a port greater than
  65535. With a 64-bit \<^verbatim>\<open>long\<close>, \<^verbatim>\<open>strtol\<close> returns 4294967297 for the
  port of \<open>overflow_line\<close>, the cast to \<^verbatim>\<open>int\<close> makes it 1, and
  \<^verbatim>\<open>is_valid_port\<close> is asked about 1: the line is accepted with port 1.
\<close>

theorem string_to_contact_port_overflow:
  "string_to_contact sample_headers c overflow_line = Some (c\<lparr>lport := 1, onion_id := addr_a\<rparr>)"
  by (simp add: string_to_contact_def strtok_r_def sample_headers_def sample_onion_def
      is_base32_def strtol_def isspace_def isdigit_def digits_val_def digit_val_def
      int_cast_def is_valid_port_def overflow_line_def addr_a_def)

theorem string_to_contact_port_overflow_witness:
  "string_to_contact sample_headers zero_contact overflow_line
     = Some (zero_contact\<lparr>lport := 1, onion_id := addr_a\<rparr>)"
  using string_to_contact_port_overflow[of zero_contact] by simp

subsection \<open>Resizing the contact list\<close>

lemma copy_loop_spec:
  assumes "length old = nat n" and "0 \<le> i" and "i \<le> n" and "0 \<le> j"
    and "nat j + length (filter occupied (drop (nat i) old)) \<le> length new"
  shows "copy_loop old n i new j =
           Some (take (nat j) new @ filter occupied (drop (nat i) old)
                 @ drop (nat j + length (filter occupied (drop (nat i) old))) new)"
  using assms
proof (induction old n i new j rule: copy_loop.induct)
  case (1 old n i new j)
  show ?case
  proof (cases "i < n")
    case False
    with "1.prems" have "drop (nat i) old = []" by simp
    with False show ?thesis by (simp add: copy_loop.simps[of old n i])
  next
    case True
    with "1.prems" have inb: "nat i < length old" by linarith
    then have dr: "drop (nat i) old = old ! nat i # drop (nat (i + 1)) old"
      using "1.prems"(2) by (simp add: Cons_nth_drop_Suc nat_add_distrib)
    show ?thesis
    proof (cases "fd (old ! nat i) \<noteq> 0")
      case False
      then have "filter occupied (drop (nat i) old) = filter occupied (drop (nat (i + 1)) old)"
        by (simp add: dr occupied_def)
      moreover have "copy_loop old n i new j = copy_loop old n (i + 1) new j"
        using True inb "1.prems"(2) False by (simp add: copy_loop.simps[of old n i])
      ultimately show ?thesis
        using "1.IH"(2)[OF True _ False] "1.prems" True inb by simp
    next
      case occ: True
      let ?x = "old ! nat i"
      let ?rest = "filter occupied (drop (nat (i + 1)) old)"
      have f: "filter occupied (drop (nat i) old) = ?x # ?rest"
        using occ by (simp add: dr occupied_def)
      with "1.prems" have jb: "nat j < length new" by simp
      have step: "copy_loop old n i new j = copy_loop old n (i + 1) (new[nat j := ?x]) (j + 1)"
        using True inb "1.prems"(2,4) occ jb by (simp add: copy_loop.simps[of old n i])
      have nj: "nat (j + 1) = Suc (nat j)" using "1.prems"(4) by simp
      have ih: "copy_loop old n (i + 1) (new[nat j := ?x]) (j + 1) =
          Some (take (nat (j + 1)) (new[nat j := ?x]) @ ?rest
                @ drop (nat (j + 1) + length ?rest) (new[nat j := ?x]))"
        using "1.IH"(1)[OF True _ occ] "1.prems" True inb jb f nj by simp
      have t: "take (nat (j + 1)) (new[nat j := ?x]) = take (nat j) new @ [?x]"
        using jb nj by (simp add: take_Suc_conv_app_nth)
      have d: "drop (nat (j + 1) + length ?rest) (new[nat j := ?x])
                 = drop (nat j + length (?x # ?rest)) new"
        using nj by simp
      show ?thesis unfolding step ih t d f by simp
    qed
  qed
qed

lemma realloc_contactlist_ok:
  assumes "store_inv cnf" and "1 \<le> n" and "used_contacts (cl cnf) \<le> n"
  shows "realloc_contactlist n cnf =
           Some (0, cnf\<lparr>cl := (cl cnf)
                   \<lparr>cl_size := n,
                    contact := filter occupied (contact (cl cnf))
                               @ replicate (nat n - nat (used_contacts (cl cnf))) zero_contact\<rparr>\<rparr>)"
proof -
  let ?old = "contact (cl cnf)"
  from assms have len: "length ?old = nat (cl_size (cl cnf))"
    and sz: "0 \<le> cl_size (cl cnf)"
    and used: "used_contacts (cl cnf) = int (length (filter occupied ?old))"
    by (simp_all add: store_inv_def)
  have fits: "nat 0 + length (filter occupied (drop (nat 0) ?old))
                \<le> length (replicate (nat n) zero_contact)"
    using assms(3) used by simp
  have "copy_loop ?old (cl_size (cl cnf)) 0 (replicate (nat n) zero_contact) 0 =
          Some (filter occupied ?old @ replicate (nat n - length (filter occupied ?old)) zero_contact)"
    using copy_loop_spec[OF len _ sz _ fits] by simp
  then show ?thesis
    using assms(2,3) used by (simp add: realloc_contactlist_def)
qed

text \<open>
  C7 (resize bounds). For every configuration and every new size that is lower than 1
  or lower than the number of contacts in use, \<^verbatim>\<open>realloc_contactlist\<close> returns
  -1 and leaves the whole configuration as it was: size, used counter and every slot.
\<close>

theorem realloc_contactlist_bounds:
  "newsize < 1 \<or> newsize < used_contacts (cl cnf) \<Longrightarrow>
     realloc_contactlist newsize cnf = Some (- 1, cnf)"
  by (simp add: realloc_contactlist_def)

theorem realloc_contactlist_bounds_witness:
  "realloc_contactlist 0 sample_conf = Some (- 1, sample_conf)
   \<and> realloc_contactlist 1 sample_conf = Some (- 1, sample_conf)"
  using realloc_contactlist_bounds[of 0 sample_conf] realloc_contactlist_bounds[of 1 sample_conf]
  by (simp add: sample_conf_def)

text \<open>
  C6 (no-loss resize). For every configuration that satisfies the store invariant and
  every new size \<open>n\<close> with \<open>n \<ge> 1\<close> and \<open>n \<ge> used_contacts\<close>,
  \<^verbatim>\<open>realloc_contactlist\<close> returns 0; the new contact list has \<open>n\<close> slots, holds
  the occupied slots of the old one at its front, in their old order, followed by
  zeroed slots, so every occupied contact is still there; \<open>cl_size\<close> is \<open>n\<close> and
  nothing else changes.
\<close>

theorem realloc_contactlist_no_loss:
  assumes "store_inv cnf" and "1 \<le> n" and "used_contacts (cl cnf) \<le> n"
  shows "realloc_contactlist n cnf =
           Some (0, cnf\<lparr>cl := (cl cnf)
                   \<lparr>cl_size := n,
                    contact := filter occupied (contact (cl cnf))
                               @ replicate (nat n - nat (used_contacts (cl cnf))) zero_contact\<rparr>\<rparr>)
       \<and> length (filter occupied (contact (cl cnf))
                 @ replicate (nat n - nat (used_contacts (cl cnf))) zero_contact) = nat n
       \<and> (\<forall>c\<in>set (contact (cl cnf)). occupied c \<longrightarrow>
             c \<in> set (filter occupied (contact (cl cnf))
                       @ replicate (nat n - nat (used_contacts (cl cnf))) zero_contact))"
proof -
  from assms(1) have "used_contacts (cl cnf) = int (length (filter occupied (contact (cl cnf))))"
    by (simp add: store_inv_def)
  with assms(3) have "length (filter occupied (contact (cl cnf))
                 @ replicate (nat n - nat (used_contacts (cl cnf))) zero_contact) = nat n"
    by simp
  then show ?thesis
    using realloc_contactlist_ok[OF assms] by simp
qed

lemma sample_conf_inv: "store_inv sample_conf"
  by (simp add: store_inv_def sample_conf_def occupied_def peer_def zero_contact_def)

theorem realloc_contactlist_no_loss_witness:
  "store_inv sample_conf \<and> (1::int) \<le> 3 \<and> used_contacts (cl sample_conf) \<le> 3 \<and>
   realloc_contactlist 3 sample_conf =
     Some (0, sample_conf\<lparr>cl := \<lparr>contact = [peer addr_a 9001 3 False, peer addr_b 9002 4 True,
                                               zero_contact],
                                    cl_size = 3, used_contacts = 2\<rparr>\<rparr>)"
proof -
  have u: "used_contacts (cl sample_conf) \<le> 3" by (simp add: sample_conf_def)
  have f: "filter occupied (contact (cl sample_conf)) = [peer addr_a 9001 3 False, peer addr_b 9002 4 True]"
    by (simp add: sample_conf_def occupied_def peer_def zero_contact_def)
  show ?thesis
    using realloc_contactlist_no_loss[OF sample_conf_inv _ u] sample_conf_inv u
    unfolding f by (simp add: sample_conf_def)
qed

subsection \<open>Adding and removing contacts\<close>

lemma run_ops_append:
  "run_ops h (xs @ ys) cnf =
     (case run_ops h xs cnf of
        None \<Rightarrow> None
      | Some (r1, cnf1) \<Rightarrow>
          (case run_ops h ys cnf1 of None \<Rightarrow> None | Some (r2, cnf2) \<Rightarrow> Some (r1 @ r2, cnf2)))"
proof (induction xs arbitrary: cnf)
  case Nil
  show ?case by (simp split: option.splits)
next
  case (Cons x xs)
  show ?case by (cases x) (simp_all add: Cons.IH split: option.splits prod.splits)
qed

lemma slot_nth:
  "0 \<le> i \<Longrightarrow> nat i < length (contact l) \<Longrightarrow> slot l i = Some (contact l ! nat i)"
  by (simp add: slot_def)

lemma add_loop_first_free:
  assumes "contact (cl cnf) = xs @ z # ys" and "\<forall>c\<in>set xs. fd c \<noteq> 0" and "fd z = 0"
    and "cl_size (cl cnf) = int (length (xs @ z # ys))" and "0 \<le> i" and "nat i \<le> length xs"
  shows "add_loop f cnf i =
           Some (int (length xs),
                 cnf\<lparr>cl := (cl cnf)\<lparr>contact := xs @ z\<lparr>fd := f\<rparr> # ys,
                                     used_contacts := used_contacts (cl cnf) + 1\<rparr>\<rparr>)"
  using assms(5,6)
proof (induction "length xs - nat i" arbitrary: i)
  case 0
  then have i: "nat i = length xs" "i = int (length xs)" by simp_all
  have "slot (cl cnf) i = Some z"
    using assms(1) i by (simp add: slot_def)
  moreover have "i < cl_size (cl cnf)" using assms(4) i by simp
  ultimately have "add_loop f cnf i =
      Some (i, cnf\<lparr>cl := (cl cnf)\<lparr>contact := (contact (cl cnf))[nat i := z\<lparr>fd := f\<rparr>],
                                 used_contacts := used_contacts (cl cnf) + 1\<rparr>\<rparr>)"
    using assms(3) by (subst add_loop.simps) simp
  then show ?case
    using assms(1) i by simp
next
  case (Suc k)
  then have lt: "nat i < length xs" by simp
  then have "slot (cl cnf) i = Some (xs ! nat i)"
    using assms(1) Suc.prems by (simp add: slot_def nth_append)
  moreover have "fd (xs ! nat i) \<noteq> 0" using assms(2) lt by simp
  moreover have "i < cl_size (cl cnf)" using assms(4) lt by simp
  ultimately have "add_loop f cnf i = add_loop f cnf (i + 1)"
    by (simp add: add_loop.simps[of f cnf i])
  moreover have "k = length xs - nat (i + 1)" "0 \<le> i + 1" "nat (i + 1) \<le> length xs"
    using Suc.hyps(2) Suc.prems lt by simp_all
  ultimately show ?case using Suc.hyps(1) by simp
qed

lemma new_slot_fd: "fd (new_slot f) = f" "new_slot f = zero_contact\<lparr>fd := f\<rparr>" "fd zero_contact = 0"
  by (simp_all add: new_slot_def zero_contact_def)

lemma add_loop_filled:
  assumes "0 \<notin> set fds"
  shows "add_loop f (filled self closed fds (Suc r)) 0 =
           Some (int (length fds), filled self closed (fds @ [f]) r)"
proof -
  let ?cnf = "filled self closed fds (Suc r)"
  have 1: "contact (cl ?cnf) = map new_slot fds @ zero_contact # replicate r zero_contact"
    by (simp add: filled_def)
  have 2: "\<forall>c\<in>set (map new_slot fds). fd c \<noteq> 0"
    using assms by (auto simp: new_slot_fd)
  have 3: "cl_size (cl ?cnf) = int (length (map new_slot fds @ zero_contact # replicate r zero_contact))"
    by (simp add: filled_def)
  have "add_loop f ?cnf 0 =
          Some (int (length (map new_slot fds)),
                ?cnf\<lparr>cl := (cl ?cnf)\<lparr>contact := map new_slot fds @ zero_contact\<lparr>fd := f\<rparr> # replicate r zero_contact,
                                     used_contacts := used_contacts (cl ?cnf) + 1\<rparr>\<rparr>)"
    by (rule add_loop_first_free[OF 1 2 new_slot_fd(3) 3]) simp_all
  then show ?thesis
    by (simp add: filled_def new_slot_def)
qed

lemma add_contact_free:
  assumes "0 \<notin> set fds"
  shows "add_contact h f (filled self closed fds (Suc r)) =
           Some (int (length fds), filled self closed (fds @ [f]) r)"
proof -
  have "used_contacts (cl (filled self closed fds (Suc r)))
          \<noteq> cl_size (cl (filled self closed fds (Suc r)))"
    by (simp add: filled_def)
  then show ?thesis
    using add_loop_filled[OF assms] by (simp add: add_contact_def)
qed

lemma filter_occupied_new_slot: "0 \<notin> set fds \<Longrightarrow> filter (occupied \<circ> new_slot) fds = fds"
  by (induction fds) (auto simp: occupied_def new_slot_fd)

lemma filter_occupied_zero: "filter occupied (replicate r zero_contact) = []"
  by (simp add: occupied_def new_slot_fd)

lemma filter_occupied_map: "0 \<notin> set fds \<Longrightarrow> filter occupied (map new_slot fds) = map new_slot fds"
  by (induction fds) (auto simp: occupied_def new_slot_fd)

lemmas filter_occupied_slots = filter_occupied_new_slot filter_occupied_zero filter_occupied_map

lemma store_inv_filled:
  "0 \<notin> set fds \<Longrightarrow> 1 \<le> length fds + r \<Longrightarrow> store_inv (filled self closed fds r)"
  by (simp add: store_inv_def filled_def filter_occupied_slots)

lemma realloc_filled:
  assumes "0 \<notin> set fds" and "1 \<le> length fds + r" and "1 \<le> length fds + r'"
  shows "realloc_contactlist (int (length fds + r')) (filled self closed fds r) =
           Some (0, filled self closed fds r')"
proof -
  let ?c = "filled self closed fds r"
  have inv: "store_inv ?c" by (rule store_inv_filled[OF assms(1,2)])
  have u: "used_contacts (cl ?c) = int (length fds)" by (simp add: filled_def)
  have f: "filter occupied (contact (cl ?c)) = map new_slot fds"
    using assms(1) by (simp add: filled_def filter_occupied_slots)
  have n: "nat (int (length fds + r')) - nat (int (length fds)) = r'" by simp
  have "realloc_contactlist (int (length fds + r')) ?c =
          Some (0, ?c\<lparr>cl := (cl ?c)\<lparr>cl_size := int (length fds + r'),
                                    contact := map new_slot fds @ replicate r' zero_contact\<rparr>\<rparr>)"
    using realloc_contactlist_ok[OF inv, of "int (length fds + r')"] assms(3)
    unfolding u f n by simp
  then show ?thesis by (simp add: filled_def)
qed

lemma add_contact_full:
  assumes "0 \<notin> set fds" and "fds \<noteq> []" and "1 \<le> INIT_CONTACTS h"
  shows "add_contact h f (filled self closed fds 0) =
           Some (int (length fds), filled self closed (fds @ [f]) (nat (INIT_CONTACTS h) - 1))"
proof -
  define k where "k = nat (INIT_CONTACTS h) - 1"
  have k: "nat (INIT_CONTACTS h) = Suc k" "INIT_CONTACTS h = int (Suc k)"
    using assms(3) by (simp_all add: k_def)
  have len: "1 \<le> length fds + 0" "1 \<le> length fds + Suc k" using assms(2) by (cases fds; simp)+
  have "realloc_contactlist (cl_size (cl (filled self closed fds 0)) + INIT_CONTACTS h)
          (filled self closed fds 0) = Some (0, filled self closed fds (Suc k))"
    using realloc_filled[OF assms(1) len, of self closed] k by (simp add: filled_def ac_simps)
  moreover have "used_contacts (cl (filled self closed fds 0)) = cl_size (cl (filled self closed fds 0))"
    by (simp add: filled_def)
  ultimately show ?thesis
    using add_loop_filled[OF assms(1), of f self closed k] k
    by (simp add: add_contact_def)
qed

lemma add_prefix:
  assumes "0 \<notin> set fds" and "length fds \<le> k"
  shows "run_ops h (map Add fds) (filled self closed [] k) =
           Some (map int [0..<length fds], filled self closed fds (k - length fds))"
  using assms
proof (induction fds rule: rev_induct)
  case Nil
  show ?case by simp
next
  case (snoc f fds)
  then have ih: "run_ops h (map Add fds) (filled self closed [] k) =
      Some (map int [0..<length fds], filled self closed fds (k - length fds))"
    and z: "0 \<notin> set fds" by simp_all
  from snoc.prems have r: "k - length fds = Suc (k - length (fds @ [f]))" by simp
  have "add_contact h f (filled self closed fds (k - length fds)) =
          Some (int (length fds), filled self closed (fds @ [f]) (k - length (fds @ [f])))"
    unfolding r by (rule add_contact_free[OF z])
  then show ?case
    by (simp add: run_ops_append ih)
qed

lemma del_contact_no_shrink:
  assumes "length (contact (cl cnf)) = nat (cl_size (cl cnf))"
    and "cl_size (cl cnf) = INIT_CONTACTS h"
  shows "\<exists>rc c'. del_contact h n cnf = Some (rc, c')
            \<and> cl_size (cl c') = INIT_CONTACTS h
            \<and> length (contact (cl c')) = nat (cl_size (cl c'))"
proof (cases "n < 0 \<or> n \<ge> cl_size (cl cnf)")
  case True
  then show ?thesis using assms by (simp add: del_contact_def)
next
  case False
  then have s: "slot (cl cnf) n = Some (contact (cl cnf) ! nat n)"
    using assms(1) by (simp add: slot_def)
  show ?thesis
    using False assms s by (simp add: del_contact_def Let_def)
qed

lemma del_seq_no_shrink:
  assumes "length (contact (cl cnf)) = nat (cl_size (cl cnf))"
    and "cl_size (cl cnf) = INIT_CONTACTS h"
  shows "\<exists>rcs c'. run_ops h (map Del ns) cnf = Some (rcs, c') \<and> cl_size (cl c') = INIT_CONTACTS h"
  using assms
proof (induction ns arbitrary: cnf)
  case Nil
  then show ?case by simp
next
  case (Cons n ns)
  from del_contact_no_shrink[OF Cons.prems, of n] obtain rc c1 where
    d: "del_contact h n cnf = Some (rc, c1)" and c1: "cl_size (cl c1) = INIT_CONTACTS h"
      "length (contact (cl c1)) = nat (cl_size (cl c1))" by blast
  from Cons.IH[OF c1(2) c1(1)] obtain rcs c2 where
    "run_ops h (map Del ns) c1 = Some (rcs, c2)" "cl_size (cl c2) = INIT_CONTACTS h" by blast
  with d show ?case by simp
qed

lemma del_contact_shrink:
  assumes z: "0 \<notin> set fds" and k: "INIT_CONTACTS h = int (Suc r)"
    and len: "length fds = Suc (Suc r)" and n: "n < length fds"
  shows "del_contact h (int n) (filled self closed fds r) =
           Some (0, filled self (fds ! n # closed) (take n fds @ drop (Suc n) fds) 0)"
proof -
  let ?K = "INIT_CONTACTS h"
  let ?c = "filled self closed fds r"
  let ?rest = "take n fds @ drop (Suc n) fds"
  let ?c1 = "?c\<lparr>closed_fds := fds ! n # closed,
                  cl := (cl ?c)\<lparr>contact := (contact (cl ?c))[n := zero_contact],
                                 used_contacts := used_contacts (cl ?c) - 1\<rparr>\<rparr>"
  have sz: "cl_size (cl ?c) = 2 * ?K" using k len by (simp add: filled_def)
  have us: "used_contacts (cl ?c) = ?K + 1" using k len by (simp add: filled_def)
  have sl: "slot (cl ?c) (int n) = Some (new_slot (fds ! n))"
    using n by (simp add: slot_def filled_def nth_append)
  have fdn: "fds ! n \<noteq> 0" using z n by (metis nth_mem)
  have c1c: "contact (cl ?c1) =
               map new_slot (take n fds) @ zero_contact # map new_slot (drop (Suc n) fds)
               @ replicate r zero_contact"
    using n by (simp add: filled_def list_update_append upd_conv_take_nth_drop take_map drop_map)
  have zr: "0 \<notin> set (take n fds)" "0 \<notin> set (drop (Suc n) fds)"
    using z by (auto dest: in_set_takeD in_set_dropD)
  have lr: "length ?rest = Suc r" using len n by simp
  have fil: "filter occupied (contact (cl ?c1)) = map new_slot ?rest"
    unfolding c1c using zr by (simp add: filter_occupied_slots occupied_def new_slot_fd)
  have u1: "used_contacts (cl ?c1) = ?K" using us by simp
  have inv: "store_inv ?c1"
    unfolding store_inv_def fil u1 using k len n lr by (simp add: filled_def)
  have k1: "1 \<le> ?K" using k by simp
  have "realloc_contactlist ?K ?c1 =
          Some (0, ?c1\<lparr>cl := (cl ?c1)\<lparr>cl_size := ?K,
                   contact := map new_slot ?rest @ replicate (nat ?K - nat ?K) zero_contact\<rparr>\<rparr>)"
    using realloc_contactlist_ok[OF inv k1] unfolding fil u1 by simp
  also have "?c1\<lparr>cl := (cl ?c1)\<lparr>cl_size := ?K,
                   contact := map new_slot ?rest @ replicate (nat ?K - nat ?K) zero_contact\<rparr>\<rparr>
              = filled self (fds ! n # closed) ?rest 0"
    using lr k us by (simp add: filled_def)
  finally have re: "realloc_contactlist ?K ?c1 = Some (0, filled self (fds ! n # closed) ?rest 0)" .
  have c1sz: "cl_size (cl ?c1) - ?K = ?K" using sz by simp
  have cond: "used_contacts (cl ?c1) = cl_size (cl ?c1) - ?K \<and> used_contacts (cl ?c1) \<noteq> 0"
    using u1 c1sz k1 by simp
  have cf: "closed_fds ?c = closed" by (simp add: filled_def)
  have inb: "\<not> (int n < 0 \<or> int n \<ge> cl_size (cl ?c))" using n sz k len by simp
  have "del_contact h (int n) ?c =
          (case realloc_contactlist (cl_size (cl ?c1) - ?K) ?c1 of
             None \<Rightarrow> None
           | Some (rc, cnf2) \<Rightarrow> if rc < 0 then Some (- 1, cnf2) else Some (0, cnf2))"
    unfolding del_contact_def Let_def using sl fdn inb cond cf
    by (simp add: new_slot_fd)
  then show ?thesis unfolding c1sz re by simp
qed

text \<open>
  C8 (removing twice), as amended. For a well-formed contact list and a valid index
  \<open>n\<close> whose removal does not shrink the list (the slot is empty, or the used counter
  less one differs from \<open>cl_size - INIT_CONTACTS\<close>, or it is 0), \<^verbatim>\<open>del_contact\<close>
  returns 0 both times; the first call on an occupied slot closes the descriptor,
  zeroes the slot and decrements \<open>used_contacts\<close> by one, and the second call changes
  nothing.
\<close>

theorem del_contact_twice:
  assumes "length (contact (cl cnf)) = nat (cl_size (cl cnf))"
    and "0 \<le> n" and "n < cl_size (cl cnf)"
    and "fd (contact (cl cnf) ! nat n) = 0 \<or>
         \<not> (used_contacts (cl cnf) - 1 = cl_size (cl cnf) - INIT_CONTACTS h
            \<and> used_contacts (cl cnf) - 1 \<noteq> 0)"
  shows "del_contact h n cnf =
           Some (0, if fd (contact (cl cnf) ! nat n) = 0 then cnf
                    else cnf\<lparr>closed_fds := fd (contact (cl cnf) ! nat n) # closed_fds cnf,
                             cl := (cl cnf)\<lparr>contact := (contact (cl cnf))[nat n := zero_contact],
                                            used_contacts := used_contacts (cl cnf) - 1\<rparr>\<rparr>)
       \<and> del_contact h n
            (if fd (contact (cl cnf) ! nat n) = 0 then cnf
             else cnf\<lparr>closed_fds := fd (contact (cl cnf) ! nat n) # closed_fds cnf,
                      cl := (cl cnf)\<lparr>contact := (contact (cl cnf))[nat n := zero_contact],
                                     used_contacts := used_contacts (cl cnf) - 1\<rparr>\<rparr>) =
           Some (0, if fd (contact (cl cnf) ! nat n) = 0 then cnf
                    else cnf\<lparr>closed_fds := fd (contact (cl cnf) ! nat n) # closed_fds cnf,
                             cl := (cl cnf)\<lparr>contact := (contact (cl cnf))[nat n := zero_contact],
                                            used_contacts := used_contacts (cl cnf) - 1\<rparr>\<rparr>)"
proof -
  let ?c = "contact (cl cnf) ! nat n"
  let ?cnf1 = "cnf\<lparr>closed_fds := fd ?c # closed_fds cnf,
                   cl := (cl cnf)\<lparr>contact := (contact (cl cnf))[nat n := zero_contact],
                                  used_contacts := used_contacts (cl cnf) - 1\<rparr>\<rparr>"
  from assms(1-3) have inb: "nat n < length (contact (cl cnf))" by simp
  with assms(2) have s: "slot (cl cnf) n = Some ?c" by (simp add: slot_def)
  show ?thesis
  proof (cases "fd ?c = 0")
    case True
    then show ?thesis using s assms(2,3) by (simp add: del_contact_def)
  next
    case False
    with assms(4) have ns: "\<not> (used_contacts (cl cnf) - 1 = cl_size (cl cnf) - INIT_CONTACTS h
            \<and> used_contacts (cl cnf) - 1 \<noteq> 0)" by simp
    have 1: "del_contact h n cnf = Some (0, ?cnf1)"
      using s False assms(2,3) ns by (auto simp: del_contact_def Let_def)
    have s1: "slot (cl ?cnf1) n = Some zero_contact"
      using inb assms(2) by (simp add: slot_def)
    have 2: "del_contact h n ?cnf1 = Some (0, ?cnf1)"
      using s1 assms(2,3) by (simp add: del_contact_def zero_contact_def)
    show ?thesis using False 1 2 by simp
  qed
qed

theorem del_contact_twice_witness:
  "del_contact sample_headers 0 sample_conf =
     Some (0, sample_conf\<lparr>closed_fds := [3],
                cl := \<lparr>contact = [zero_contact, zero_contact, peer addr_b 9002 4 True, zero_contact],
                       cl_size = 4, used_contacts = 1\<rparr>\<rparr>)
   \<and> del_contact sample_headers 0
       (sample_conf\<lparr>closed_fds := [3],
                cl := \<lparr>contact = [zero_contact, zero_contact, peer addr_b 9002 4 True, zero_contact],
                       cl_size = 4, used_contacts = 1\<rparr>\<rparr>) =
     Some (0, sample_conf\<lparr>closed_fds := [3],
                cl := \<lparr>contact = [zero_contact, zero_contact, peer addr_b 9002 4 True, zero_contact],
                       cl_size = 4, used_contacts = 1\<rparr>\<rparr>)"
  using del_contact_twice[of sample_conf 0 sample_headers]
  by (simp add: sample_conf_def sample_headers_def peer_def)

text \<open>
  Without the condition the claim fails. With \<open>INIT_CONTACTS = 2\<close> and three contacts
  in four slots, removing index 0 shrinks and compacts the list, so index 0 then holds
  the next contact: the second call closes descriptor 4 as well and \<open>used_contacts\<close>
  goes from 3 to 1. Removing index 2 twice returns -1 the second time, since the list
  has shrunk to two slots.
\<close>

theorem del_contact_twice_counterexample:
  "del_contact sample_headers 0 (filled zero_contact [] [3, 4, 5] 1)
     = Some (0, filled zero_contact [3] [4, 5] 0)
   \<and> del_contact sample_headers 0 (filled zero_contact [3] [4, 5] 0)
     = Some (0, \<lparr>cl = \<lparr>contact = [zero_contact, new_slot 5], cl_size = 2, used_contacts = 1\<rparr>,
                 me = zero_contact, closed_fds = [4, 3]\<rparr>)
   \<and> used_contacts (cl (filled zero_contact [] [3, 4, 5] 1)) = 3
   \<and> del_contact sample_headers 2 (filled zero_contact [] [3, 4, 5] 1)
     = Some (0, filled zero_contact [5] [3, 4] 0)
   \<and> del_contact sample_headers 2 (filled zero_contact [5] [3, 4] 0)
     = Some (- 1, filled zero_contact [5] [3, 4] 0)"
  by code_simp

text \<open>
  C9 (growth, then shrink with hysteresis). Let \<open>K = INIT_CONTACTS \<ge> 1\<close> and take
  \<open>K + 1\<close> descriptors, none of them 0. Starting from the empty list with \<open>K\<close>
  slots, after each of the first \<open>K\<close> calls of \<^verbatim>\<open>add_contact\<close> the list still has
  \<open>K\<close> slots, and after call \<open>K + 1\<close> it has \<open>2K\<close>: one growth. Removing any one
  of the \<open>K + 1\<close> contacts then returns 0 and leaves \<open>K\<close> contacts in \<open>K\<close> slots:
  one shrink. After that no sequence of calls of \<^verbatim>\<open>del_contact\<close> changes the size
  again.
\<close>

theorem growth_shrink_hysteresis:
  assumes k1: "1 \<le> INIT_CONTACTS h"
    and len: "length fds = nat (INIT_CONTACTS h) + 1"
    and nz: "0 \<notin> set fds"
  shows "(\<forall>m\<le>nat (INIT_CONTACTS h).
            \<exists>rcs c. run_ops h (map Add (take m fds)) (empty_store self (INIT_CONTACTS h)) = Some (rcs, c)
               \<and> cl_size (cl c) = INIT_CONTACTS h \<and> used_contacts (cl c) = int m)
       \<and> (\<exists>rcs c. run_ops h (map Add fds) (empty_store self (INIT_CONTACTS h)) = Some (rcs, c)
               \<and> cl_size (cl c) = 2 * INIT_CONTACTS h
               \<and> used_contacts (cl c) = INIT_CONTACTS h + 1
               \<and> (\<forall>n. 0 \<le> n \<and> n \<le> INIT_CONTACTS h \<longrightarrow>
                     (\<exists>c1. del_contact h n c = Some (0, c1)
                        \<and> cl_size (cl c1) = INIT_CONTACTS h
                        \<and> used_contacts (cl c1) = INIT_CONTACTS h
                        \<and> (\<forall>ns. \<exists>rcs' c2. run_ops h (map Del ns) c1 = Some (rcs', c2)
                                    \<and> cl_size (cl c2) = INIT_CONTACTS h))))"
proof -
  let ?K = "INIT_CONTACTS h"
  define r where "r = nat ?K - 1"
  have K: "?K = int (Suc r)" "nat ?K = Suc r" using k1 by (simp_all add: r_def)
  have lenS: "length fds = Suc (Suc r)" using len K by simp
  have first: "\<exists>rcs c. run_ops h (map Add (take m fds)) (empty_store self ?K) = Some (rcs, c)
               \<and> cl_size (cl c) = ?K \<and> used_contacts (cl c) = int m" if m: "m \<le> nat ?K" for m
  proof -
    have z: "0 \<notin> set (take m fds)" using nz by (auto dest: in_set_takeD)
    have l: "length (take m fds) = m" using m len by simp
    have "run_ops h (map Add (take m fds)) (filled self [] [] (nat ?K)) =
            Some (map int [0..<length (take m fds)],
                  filled self [] (take m fds) (nat ?K - length (take m fds)))"
      by (rule add_prefix[OF z]) (use m l in simp)
    moreover have "cl_size (cl (filled self [] (take m fds) (nat ?K - length (take m fds)))) = ?K"
      "used_contacts (cl (filled self [] (take m fds) (nat ?K - length (take m fds)))) = int m"
      using m l k1 by (simp_all add: filled_def)
    ultimately show ?thesis by (simp add: empty_store_def)
  qed
  obtain fs f where fds: "fds = fs @ [f]" and lfs: "length fs = Suc r"
    using lenS by (metis length_Suc_conv_rev)
  have zfs: "0 \<notin> set fs" using nz fds by simp
  have "run_ops h (map Add fs) (filled self [] [] (nat ?K)) =
          Some (map int [0..<length fs], filled self [] fs (nat ?K - length fs))"
    by (rule add_prefix[OF zfs]) (use lfs K in simp)
  then have pre: "run_ops h (map Add fs) (filled self [] [] (nat ?K)) =
          Some (map int [0..<length fs], filled self [] fs 0)"
    using lfs K by simp
  have "fs \<noteq> []" using lfs by auto
  then have last: "add_contact h f (filled self [] fs 0) =
          Some (int (length fs), filled self [] fds r)"
    using add_contact_full[OF zfs _ k1, of f self "[]"] fds by (simp add: r_def)
  have all: "run_ops h (map Add fds) (empty_store self ?K) =
          Some (map int [0..<length fs] @ [int (length fs)], filled self [] fds r)"
    using pre last by (simp add: fds run_ops_append empty_store_def)
  have full: "cl_size (cl (filled self [] fds r)) = 2 * ?K"
    "used_contacts (cl (filled self [] fds r)) = ?K + 1"
    using lenS K by (simp_all add: filled_def)
  have shrink: "\<exists>c1. del_contact h n (filled self [] fds r) = Some (0, c1)
                  \<and> cl_size (cl c1) = ?K \<and> used_contacts (cl c1) = ?K
                  \<and> (\<forall>ns. \<exists>rcs' c2. run_ops h (map Del ns) c1 = Some (rcs', c2)
                              \<and> cl_size (cl c2) = ?K)"
    if n: "0 \<le> n \<and> n \<le> ?K" for n
  proof -
    let ?c1 = "filled self [fds ! nat n] (take (nat n) fds @ drop (Suc (nat n)) fds) 0"
    from n have "nat n < Suc (Suc r)" using K(1) by linarith
    with n have nn: "nat n < length fds" "int (nat n) = n" using lenS by simp_all
    have d: "del_contact h n (filled self [] fds r) = Some (0, ?c1)"
      using del_contact_shrink[OF nz K(1) lenS nn(1), of self "[]"] nn(2) by simp
    have l1: "length (take (nat n) fds @ drop (Suc (nat n)) fds) = Suc r"
      using nn(1) lenS by simp
    have c1: "cl_size (cl ?c1) = ?K" "used_contacts (cl ?c1) = ?K"
      "length (contact (cl ?c1)) = nat (cl_size (cl ?c1))"
      using l1 K by (simp_all add: filled_def)
    have "\<exists>rcs' c2. run_ops h (map Del ns) ?c1 = Some (rcs', c2) \<and> cl_size (cl c2) = ?K" for ns
      by (rule del_seq_no_shrink[OF c1(3) c1(1)])
    with d c1 show ?thesis by blast
  qed
  show ?thesis using first all full shrink by blast
qed

theorem growth_shrink_hysteresis_witness:
  "1 \<le> INIT_CONTACTS sample_headers
   \<and> length [3, 4, 5 :: int] = nat (INIT_CONTACTS sample_headers) + 1
   \<and> (0::int) \<notin> set [3, 4, 5]
   \<and> (\<exists>rcs c. run_ops sample_headers (map Add (take 2 [3, 4, 5])) (empty_store zero_contact 2)
                  = Some (rcs, c)
          \<and> cl_size (cl c) = 2 \<and> used_contacts (cl c) = 2)
   \<and> (\<exists>rcs c. run_ops sample_headers (map Add [3, 4, 5]) (empty_store zero_contact 2)
                  = Some (rcs, c)
          \<and> cl_size (cl c) = 4 \<and> used_contacts (cl c) = 3
          \<and> (\<exists>c1. del_contact sample_headers 1 c = Some (0, c1)
                 \<and> cl_size (cl c1) = 2 \<and> used_contacts (cl c1) = 2
                 \<and> (\<exists>rcs' c2. run_ops sample_headers (map Del [0]) c1 = Some (rcs', c2)
                        \<and> cl_size (cl c2) = 2)))"
proof -
  have K: "INIT_CONTACTS sample_headers = 2" by (simp add: sample_headers_def)
  have h1: "1 \<le> INIT_CONTACTS sample_headers" by (simp add: K)
  have h2: "length [3, 4, 5 :: int] = nat (INIT_CONTACTS sample_headers) + 1" by (simp add: K)
  have h3: "(0::int) \<notin> set [3, 4, 5]" by simp
  note t = growth_shrink_hysteresis[OF h1 h2 h3, of zero_contact, unfolded K]
  from t have A: "\<exists>rcs c. run_ops sample_headers (map Add (take 2 [3, 4, 5])) (empty_store zero_contact 2)
                  = Some (rcs, c) \<and> cl_size (cl c) = 2 \<and> used_contacts (cl c) = int 2"
    by (elim conjE allE[of _ "2::nat"]) simp
  from t obtain rcs c where B:
    "run_ops sample_headers (map Add [3, 4, 5]) (empty_store zero_contact 2) = Some (rcs, c)"
    "cl_size (cl c) = 2 * 2" "used_contacts (cl c) = 2 + 1"
    and D: "\<forall>n. 0 \<le> n \<and> n \<le> 2 \<longrightarrow>
              (\<exists>c1. del_contact sample_headers n c = Some (0, c1) \<and> cl_size (cl c1) = 2
                 \<and> used_contacts (cl c1) = 2
                 \<and> (\<forall>ns. \<exists>rcs' c2. run_ops sample_headers (map Del ns) c1 = Some (rcs', c2)
                             \<and> cl_size (cl c2) = 2))"
    by blast
  from D[rule_format, of 1] obtain c1 where C:
    "del_contact sample_headers 1 c = Some (0, c1)" "cl_size (cl c1) = 2" "used_contacts (cl c1) = 2"
    and E: "\<forall>ns. \<exists>rcs' c2. run_ops sample_headers (map Del ns) c1 = Some (rcs', c2)
                             \<and> cl_size (cl c2) = 2"
    by auto
  from E[rule_format, of "[0]"] obtain rcs' c2 where F:
    "run_ops sample_headers (map Del [0]) c1 = Some (rcs', c2)" "cl_size (cl c2) = 2" by blast
  from A B C F h1 h2 h3 show ?thesis by auto
qed

subsection \<open>Searching the contact list\<close>

text \<open>
  A candidate with the string form of \<^verbatim>\<open>_cnf->me\<close> makes \<^verbatim>\<open>find_contact\<close>
  return \<open>begin - 1\<close>: the index variable has been set to that before the
  comparison. That is -1 only for \<open>begin = 0\<close>.
\<close>

lemma find_contact_self:
  assumes "lport (me cnf) \<noteq> 0" and "same_string h c (me cnf) = Some True"
    and "0 \<le> begin" and "begin < cl_size (cl cnf)"
  shows "find_contact h cnf c begin = Some (begin - 1)"
  using assms by (simp add: find_contact_def)

text \<open>
  C3 (self match) fails on the code. The claim: for a confirmed self identity and every
  valid start index, \<^verbatim>\<open>find_contact\<close> on a candidate identity-equal to the self
  identity returns -1, never a store index. With start index 1 in a list of four slots
  it returns 0, which is the index of another contact.
\<close>

theorem find_contact_self_from_1:
  "find_contact sample_headers sample_conf (me sample_conf) 1 = Some 0"
  by (simp add: find_contact_def sample_conf_def same_string_def contact_to_string_def
      sample_headers_def sample_onion_def is_base32_def peer_def is_valid_port_def strcmp_eq_0)

lemma append_sep_eq:
  assumes "x \<notin> set a" "x \<notin> set b" "a @ x # r = b @ x # s"
  shows "a = b \<and> r = s"
proof -
  have "takeWhile (\<lambda>c. c \<noteq> x) (a @ x # r) = a" using assms(1) by (induction a) auto
  moreover have "takeWhile (\<lambda>c. c \<noteq> x) (b @ x # s) = b" using assms(2) by (induction b) auto
  ultimately show ?thesis using assms(3) by auto
qed

lemma same_string_valid:
  assumes ok: "headers_ok h" and a: "valid_contact h a" and b: "valid_contact h b"
  shows "same_string h a b = Some (same_peer a b)"
proof -
  let ?sa = "onion_id a @ '' '' @ utoa (nat (lport a)) @ [CHR 0x0A]"
  let ?sb = "onion_id b @ '' '' @ utoa (nat (lport b)) @ [CHR 0x0A]"
  have sa: "contact_to_string h a = Some ?sa" and sb: "contact_to_string h b = Some ?sb"
    using contact_to_string_valid[OF ok] a b by simp_all
  have nsp: "CHR '' '' \<notin> set (onion_id a)" "CHR '' '' \<notin> set (onion_id b)"
    using ok a b by (auto simp: headers_ok_def valid_contact_def)
  have pos: "1 \<le> lport a" "1 \<le> lport b"
    using a b by (simp_all add: valid_contact_def is_valid_port_def)
  have "?sa = ?sb \<longleftrightarrow> same_peer a b"
  proof
    assume eq: "?sa = ?sb"
    then have "onion_id a = onion_id b \<and> utoa (nat (lport a)) @ [CHR 0x0A] = utoa (nat (lport b)) @ [CHR 0x0A]"
      using append_sep_eq[OF nsp, of "utoa (nat (lport a)) @ [CHR 0x0A]" "utoa (nat (lport b)) @ [CHR 0x0A]"]
      by simp
    then have "onion_id a = onion_id b" "nat (lport a) = nat (lport b)"
      by (auto dest: utoa_inj)
    with pos show "same_peer a b" by (simp add: same_peer_def)
  next
    assume "same_peer a b"
    then show "?sa = ?sb" by (simp add: same_peer_def)
  qed
  then show ?thesis by (simp add: same_string_def sa sb strcmp_eq_0)
qed

lemma conf_wf_slot:
  assumes "conf_wf h cnf" "0 \<le> k" "k < cl_size (cl cnf)"
  shows "slot (cl cnf) k = Some (contact (cl cnf) ! nat k)"
    and "lport (contact (cl cnf) ! nat k) \<noteq> 0 \<Longrightarrow> valid_contact h (contact (cl cnf) ! nat k)"
proof -
  from assms have inb: "nat k < length (contact (cl cnf))" by (simp add: conf_wf_def)
  with assms(2) show "slot (cl cnf) k = Some (contact (cl cnf) ! nat k)" by (simp add: slot_def)
  from inb have "contact (cl cnf) ! nat k \<in> set (contact (cl cnf))" by simp
  with assms(1) show "lport (contact (cl cnf) ! nat k) \<noteq> 0 \<Longrightarrow> valid_contact h (contact (cl cnf) ! nat k)"
    by (simp add: conf_wf_def)
qed

lemma find_loop_step:
  assumes ok: "headers_ok h" and wf: "conf_wf h cnf" and v: "valid_contact h c0"
    and i: "0 \<le> i" "i < cl_size (cl cnf)"
  shows "find_loop h cnf c0 i =
           (if lport (contact (cl cnf) ! nat i) \<noteq> 0 \<and> same_peer c0 (contact (cl cnf) ! nat i)
            then Some i else find_loop h cnf c0 (i + 1))"
proof (cases "lport (contact (cl cnf) ! nat i) \<noteq> 0")
  case True
  then have "same_string h c0 (contact (cl cnf) ! nat i) = Some (same_peer c0 (contact (cl cnf) ! nat i))"
    using same_string_valid[OF ok v] conf_wf_slot(2)[OF wf i] by simp
  then show ?thesis
    using True i conf_wf_slot(1)[OF wf i] by (subst find_loop.simps) simp
next
  case False
  then show ?thesis
    using i conf_wf_slot(1)[OF wf i] by (subst find_loop.simps) simp
qed

lemma find_loop_first:
  assumes ok: "headers_ok h" and wf: "conf_wf h cnf" and v: "valid_contact h c0"
    and k: "k < cl_size (cl cnf)"
    and hit: "lport (contact (cl cnf) ! nat k) \<noteq> 0" "same_peer c0 (contact (cl cnf) ! nat k)"
    and i: "0 \<le> i" "i \<le> k"
    and miss: "\<forall>m. i \<le> m \<and> m < k \<longrightarrow>
                \<not> (lport (contact (cl cnf) ! nat m) \<noteq> 0 \<and> same_peer c0 (contact (cl cnf) ! nat m))"
  shows "find_loop h cnf c0 i = Some k"
  using i miss
proof (induction "nat (k - i)" arbitrary: i)
  case 0
  then have "i = k" by simp
  then show ?case using find_loop_step[OF ok wf v, of k] hit k "0.prems"(1) by simp
next
  case (Suc d)
  then have lt: "i < k" by linarith
  with Suc.prems have "\<not> (lport (contact (cl cnf) ! nat i) \<noteq> 0 \<and> same_peer c0 (contact (cl cnf) ! nat i))"
    by simp
  then have "find_loop h cnf c0 i = find_loop h cnf c0 (i + 1)"
    using find_loop_step[OF ok wf v, of i] Suc.prems(1) lt k by auto
  moreover have "find_loop h cnf c0 (i + 1) = Some k"
    using Suc.hyps(2) Suc.prems lt by (intro Suc.hyps(1)) auto
  ultimately show ?case by simp
qed

lemma find_loop_none:
  assumes ok: "headers_ok h" and wf: "conf_wf h cnf" and v: "valid_contact h c0"
    and i: "0 \<le> i"
    and miss: "\<forall>m. i \<le> m \<and> m < cl_size (cl cnf) \<longrightarrow>
                \<not> (lport (contact (cl cnf) ! nat m) \<noteq> 0 \<and> same_peer c0 (contact (cl cnf) ! nat m))"
  shows "find_loop h cnf c0 i = Some (- 2)"
  using i miss
proof (induction "nat (cl_size (cl cnf) - i)" arbitrary: i)
  case 0
  then show ?case by (subst find_loop.simps) simp
next
  case (Suc d)
  then have lt: "i < cl_size (cl cnf)" by linarith
  with Suc.prems have "\<not> (lport (contact (cl cnf) ! nat i) \<noteq> 0 \<and> same_peer c0 (contact (cl cnf) ! nat i))"
    by simp
  then have "find_loop h cnf c0 i = find_loop h cnf c0 (i + 1)"
    using find_loop_step[OF ok wf v, of i] Suc.prems(1) lt by auto
  moreover have "find_loop h cnf c0 (i + 1) = Some (- 2)"
    using Suc.hyps(2) Suc.prems lt by (intro Suc.hyps(1)) auto
  ultimately show ?case by simp
qed

lemma same_peer_refl: "same_peer a a"
  by (simp add: same_peer_def)

lemma same_peer_valid:
  "same_peer a b \<Longrightarrow> valid_contact h a \<Longrightarrow> valid_contact h b"
  by (simp add: same_peer_def valid_contact_def)

lemma find_contact_not_self:
  assumes ok: "headers_ok h" and wf: "conf_wf h cnf" and v: "valid_contact h c0"
    and ns: "\<not> same_peer c0 (me cnf)" and b: "0 \<le> begin" "begin < cl_size (cl cnf)"
  shows "find_contact h cnf c0 begin = find_loop h cnf c0 begin"
proof (cases "lport (me cnf) = 0")
  case True
  then show ?thesis using b by (simp add: find_contact_def)
next
  case False
  then have "valid_contact h (me cnf)" using wf by (simp add: conf_wf_def)
  then have "same_string h c0 (me cnf) = Some False"
    using same_string_valid[OF ok v] ns by simp
  then show ?thesis using b False by (simp add: find_contact_def)
qed

subsection \<open>Duplicate detection\<close>

lemma occurrences_pair:
  assumes "occurrences c0 cs = [i, j]"
  shows "i < j" and "j < length cs"
    and "lport (cs ! i) \<noteq> 0" and "same_peer c0 (cs ! i)"
    and "lport (cs ! j) \<noteq> 0" and "same_peer c0 (cs ! j)"
    and "\<And>k. k < length cs \<Longrightarrow> lport (cs ! k) \<noteq> 0 \<Longrightarrow> same_peer c0 (cs ! k) \<Longrightarrow> k = i \<or> k = j"
proof -
  have s: "set (occurrences c0 cs) = {k. k < length cs \<and> lport (cs ! k) \<noteq> 0 \<and> same_peer c0 (cs ! k)}"
    by (auto simp: occurrences_def)
  have "sorted_wrt (<) (occurrences c0 cs)"
    unfolding occurrences_def by (rule sorted_wrt_filter) (rule sorted_wrt_upt)
  with assms show "i < j" by simp
  from s assms have m: "{i, j} = {k. k < length cs \<and> lport (cs ! k) \<noteq> 0 \<and> same_peer c0 (cs ! k)}"
    by simp
  then have "i \<in> {k. k < length cs \<and> lport (cs ! k) \<noteq> 0 \<and> same_peer c0 (cs ! k)}"
    and "j \<in> {k. k < length cs \<and> lport (cs ! k) \<noteq> 0 \<and> same_peer c0 (cs ! k)}"
    by blast+
  then show "j < length cs" "lport (cs ! i) \<noteq> 0" "same_peer c0 (cs ! i)"
    "lport (cs ! j) \<noteq> 0" "same_peer c0 (cs ! j)" by simp_all
  fix k assume "k < length cs" "lport (cs ! k) \<noteq> 0" "same_peer c0 (cs ! k)"
  then have "k \<in> {i, j}" unfolding m by simp
  then show "k = i \<or> k = j" by simp
qed

lemma check_duplicates_pair:
  assumes ok: "headers_ok h" and wf: "conf_wf h cnf"
    and n: "0 \<le> n" "n < cl_size (cl cnf)"
    and occ: "occurrences (contact (cl cnf) ! nat n) (contact (cl cnf)) = [i, j]"
  shows "check_duplicates h n cnf =
           Some (if same_peer (me cnf) (contact (cl cnf) ! nat n) then n
                 else if self_greater (me cnf) (contact (cl cnf) ! nat n)
                      then (if accepted (contact (cl cnf) ! i) then int j else int i)
                      else (if accepted (contact (cl cnf) ! i) then int i else int j))"
proof -
  let ?cs = "contact (cl cnf)"
  let ?cn = "?cs ! nat n"
  note o = occurrences_pair[OF occ]
  have len: "length ?cs = nat (cl_size (cl cnf))" using wf by (simp add: conf_wf_def)
  have sn: "slot (cl cnf) n = Some ?cn" by (rule conf_wf_slot(1)[OF wf n])
  have lp: "lport ?cn \<noteq> 0" using o(3,4) by (simp add: same_peer_def)
  have vn: "valid_contact h ?cn" by (rule conf_wf_slot(2)[OF wf n lp])
  have sz: "0 < cl_size (cl cnf)" using n by simp
  show ?thesis
  proof (cases "same_peer (me cnf) ?cn")
    case True
    then have sp: "same_peer ?cn (me cnf)" by (simp add: same_peer_def)
    then have lm: "lport (me cnf) \<noteq> 0" using lp by (simp add: same_peer_def)
    have "valid_contact h (me cnf)" using same_peer_valid[OF sp vn] .
    then have "same_string h ?cn (me cnf) = Some True"
      using same_string_valid[OF ok vn] sp by simp
    then have "find_contact h cnf ?cn 0 = Some (- 1)"
      using lm sz by (simp add: find_contact_def)
    then show ?thesis using sn True by (simp add: check_duplicates_def)
  next
    case False
    then have ns: "\<not> same_peer ?cn (me cnf)" by (auto simp: same_peer_def)
    have ib: "int i < cl_size (cl cnf)" "int j < cl_size (cl cnf)" using o(1,2) len by linarith+
    have first: "find_loop h cnf ?cn 0 = Some (int i)"
    proof (rule find_loop_first[OF ok wf vn ib(1)])
      show "lport (?cs ! nat (int i)) \<noteq> 0" "same_peer ?cn (?cs ! nat (int i))" using o(3,4) by simp_all
      show "\<forall>m. 0 \<le> m \<and> m < int i \<longrightarrow>
              \<not> (lport (?cs ! nat m) \<noteq> 0 \<and> same_peer ?cn (?cs ! nat m))"
      proof (intro allI impI notI)
        fix m assume m: "0 \<le> m \<and> m < int i" and "lport (?cs ! nat m) \<noteq> 0 \<and> same_peer ?cn (?cs ! nat m)"
        moreover from m o(1,2) have "nat m < length ?cs" by linarith
        ultimately have "nat m = i \<or> nat m = j" using o(7) by blast
        with m o(1) show False by linarith
      qed
    qed simp_all
    have second: "find_loop h cnf ?cn (int i + 1) = Some (int j)"
    proof (rule find_loop_first[OF ok wf vn ib(2)])
      show "lport (?cs ! nat (int j)) \<noteq> 0" "same_peer ?cn (?cs ! nat (int j))" using o(5,6) by simp_all
      show "0 \<le> int i + 1" "int i + 1 \<le> int j" using o(1) by simp_all
      show "\<forall>m. int i + 1 \<le> m \<and> m < int j \<longrightarrow>
              \<not> (lport (?cs ! nat m) \<noteq> 0 \<and> same_peer ?cn (?cs ! nat m))"
      proof (intro allI impI notI)
        fix m assume m: "int i + 1 \<le> m \<and> m < int j" and "lport (?cs ! nat m) \<noteq> 0 \<and> same_peer ?cn (?cs ! nat m)"
        moreover from m o(1,2) have "nat m < length ?cs" by linarith
        ultimately have "nat m = i \<or> nat m = j" using o(7) by blast
        with m show False by linarith
      qed
    qed
    have f1: "find_contact h cnf ?cn 0 = Some (int i)"
      using find_contact_not_self[OF ok wf vn ns, of 0] sz first by simp
    have f2: "find_contact h cnf ?cn (int i + 1) = Some (int j)"
      using find_contact_not_self[OF ok wf vn ns, of "int i + 1"] ib o(1) second by simp
    have si: "slot (cl cnf) (int i) = Some (?cs ! i)"
      using conf_wf_slot(1)[OF wf _ ib(1)] by simp
    have sg: "self_greater (me cnf) ?cn \<longleftrightarrow>
                (strcmp (onion_id (me cnf)) (onion_id ?cn) > 0 \<or>
                 (\<not> strcmp (onion_id (me cnf)) (onion_id ?cn) < 0 \<and> lport (me cnf) > lport ?cn))"
      unfolding self_greater_def by auto
    show ?thesis
      unfolding check_duplicates_def sn
      using False f1 f2 si sg by (simp add: Let_def) 
  qed
qed

lemma strcmp_swap: "strcmp b a = - strcmp a b"
proof (induction a b rule: strcmp.induct)
  case (4 a as b bs)
  have "a \<noteq> b \<Longrightarrow> (of_char a :: nat) \<noteq> of_char b" by simp
  with 4 show ?case by auto
qed simp_all

lemma self_greater_cong:
  "same_peer a a' \<Longrightarrow> same_peer b b' \<Longrightarrow> self_greater a b = self_greater a' b'"
  by (simp add: same_peer_def self_greater_def)

lemma self_greater_swap:
  assumes "\<not> same_peer a b"
  shows "self_greater b a = (\<not> self_greater a b)"
proof -
  have e: "strcmp (onion_id a) (onion_id b) = 0 \<longleftrightarrow> onion_id a = onion_id b"
    by (rule strcmp_eq_0)
  have s: "strcmp (onion_id b) (onion_id a) = - strcmp (onion_id a) (onion_id b)"
    by (rule strcmp_swap)
  show ?thesis
    using assms e unfolding self_greater_def s same_peer_def by auto
qed

lemma evicted_flag:
  assumes ok: "headers_ok h" and wf: "conf_wf h cnf"
    and n: "0 \<le> n" "n < cl_size (cl cnf)"
    and occ: "occurrences (contact (cl cnf) ! nat n) (contact (cl cnf)) = [i, j]"
    and acc: "accepted (contact (cl cnf) ! i) \<noteq> accepted (contact (cl cnf) ! j)"
    and ns: "\<not> same_peer (me cnf) (contact (cl cnf) ! nat n)"
  shows "\<exists>r. check_duplicates h n cnf = Some (int r) \<and> r \<in> {i, j}
            \<and> accepted (contact (cl cnf) ! r) = (\<not> self_greater (me cnf) (contact (cl cnf) ! nat n))"
  using check_duplicates_pair[OF ok wf n occ] acc ns by auto

lemma sample_onion_addr_m: "sample_onion addr_m"
  by (simp add: sample_onion_def addr_m_def is_base32_def)

lemma valid_sample_peers:
  "valid_contact sample_headers (peer addr_a 9001 f acc)"
  "valid_contact sample_headers (peer addr_m 7000 f acc)"
  by (simp_all add: valid_contact_def sample_headers_def peer_def sample_onion_addr
      sample_onion_addr_m is_valid_port_def)

lemma lport_zero_contact: "lport zero_contact = 0"
  by (simp add: zero_contact_def)

lemma dup_confs_wf:
  "conf_wf sample_headers dup_conf" "conf_wf sample_headers dup_conf_swapped"
  "conf_wf sample_headers dup_conf_remote" "conf_wf sample_headers dup_self_conf"
  "conf_wf sample_headers dup_self_remote"
  by (simp_all add: conf_wf_def dup_conf_def dup_conf_swapped_def dup_conf_remote_def
      dup_self_conf_def dup_self_remote_def valid_sample_peers lport_zero_contact)

lemma dup_occurrences:
  "occurrences (contact (cl dup_conf) ! nat 2) (contact (cl dup_conf)) = [0, 2]"
  "occurrences (contact (cl dup_conf_swapped) ! nat 0) (contact (cl dup_conf_swapped)) = [0, 2]"
  "occurrences (contact (cl dup_conf_remote) ! nat 0) (contact (cl dup_conf_remote)) = [0, 1]"
  "occurrences (contact (cl dup_self_conf) ! nat 0) (contact (cl dup_self_conf)) = [0, 1]"
  "occurrences (contact (cl dup_self_remote) ! nat 1) (contact (cl dup_self_remote)) = [0, 1]"
  by (simp_all add: occurrences_def dup_conf_def dup_conf_swapped_def dup_conf_remote_def
      dup_self_conf_def dup_self_remote_def peer_def zero_contact_def same_peer_def upt_rec)

text \<open>
  C1 (tie break), as amended. In a well-formed configuration let the contact at the
  valid index \<open>n\<close> occur at exactly two confirmed slots, \<open>connect_side\<close> with
  \<open>accepted\<close> false and \<open>accept_side\<close> with \<open>accepted\<close> true. Then
  \<^verbatim>\<open>check_duplicates\<close> returns \<open>connect_side\<close> when \<^verbatim>\<open>strcmp\<close> finds the local
  address greater and \<open>accept_side\<close> when it finds it lesser; with equal addresses it
  returns \<open>connect_side\<close> when the local port is greater and \<open>accept_side\<close> when it
  is lesser; and when address and port are both equal it returns \<open>n\<close> itself, the
  contact being this client.
\<close>

theorem check_duplicates_tie_break:
  assumes ok: "headers_ok h" and wf: "conf_wf h cnf"
    and n: "0 \<le> n" "n < cl_size (cl cnf)"
    and occ: "occurrences (contact (cl cnf) ! nat n) (contact (cl cnf)) = [i, j]"
    and sides: "connect_side \<in> {i, j}" "accept_side \<in> {i, j}"
    and flags: "\<not> accepted (contact (cl cnf) ! connect_side)" "accepted (contact (cl cnf) ! accept_side)"
  shows "(strcmp (onion_id (me cnf)) (onion_id (contact (cl cnf) ! nat n)) > 0 \<longrightarrow>
            check_duplicates h n cnf = Some (int connect_side))
       \<and> (strcmp (onion_id (me cnf)) (onion_id (contact (cl cnf) ! nat n)) < 0 \<longrightarrow>
            check_duplicates h n cnf = Some (int accept_side))
       \<and> (onion_id (me cnf) = onion_id (contact (cl cnf) ! nat n) \<longrightarrow>
            (lport (me cnf) > lport (contact (cl cnf) ! nat n) \<longrightarrow>
               check_duplicates h n cnf = Some (int connect_side))
          \<and> (lport (me cnf) < lport (contact (cl cnf) ! nat n) \<longrightarrow>
               check_duplicates h n cnf = Some (int accept_side))
          \<and> (lport (me cnf) = lport (contact (cl cnf) ! nat n) \<longrightarrow>
               check_duplicates h n cnf = Some n))"
proof -
  let ?me = "me cnf"
  let ?cn = "contact (cl cnf) ! nat n"
  have e: "strcmp (onion_id ?me) (onion_id ?cn) = 0 \<longleftrightarrow> onion_id ?me = onion_id ?cn"
    by (rule strcmp_eq_0)
  have cs: "connect_side = (if accepted (contact (cl cnf) ! i) then j else i)"
    and as: "accept_side = (if accepted (contact (cl cnf) ! i) then i else j)"
    using sides flags by auto
  have r: "check_duplicates h n cnf =
             Some (if same_peer ?me ?cn then n
                   else if self_greater ?me ?cn then int connect_side else int accept_side)"
    using check_duplicates_pair[OF ok wf n occ] cs as by simp
  have g: "strcmp (onion_id ?me) (onion_id ?cn) > 0 \<Longrightarrow> self_greater ?me ?cn \<and> \<not> same_peer ?me ?cn"
    using e by (auto simp: self_greater_def same_peer_def)
  have l: "strcmp (onion_id ?me) (onion_id ?cn) < 0 \<Longrightarrow> \<not> self_greater ?me ?cn \<and> \<not> same_peer ?me ?cn"
    using e by (auto simp: self_greater_def same_peer_def)
  have pg: "onion_id ?me = onion_id ?cn \<Longrightarrow> lport ?me > lport ?cn
             \<Longrightarrow> self_greater ?me ?cn \<and> \<not> same_peer ?me ?cn"
    using e by (auto simp: self_greater_def same_peer_def)
  have pl: "onion_id ?me = onion_id ?cn \<Longrightarrow> lport ?me < lport ?cn
             \<Longrightarrow> \<not> self_greater ?me ?cn \<and> \<not> same_peer ?me ?cn"
    using e by (auto simp: self_greater_def same_peer_def)
  have pe: "onion_id ?me = onion_id ?cn \<Longrightarrow> lport ?me = lport ?cn \<Longrightarrow> same_peer ?me ?cn"
    by (simp add: same_peer_def)
  show ?thesis
    unfolding r using g l pg pl pe by simp
qed

theorem check_duplicates_tie_break_witness:
  "headers_ok sample_headers \<and> conf_wf sample_headers dup_conf
   \<and> occurrences (contact (cl dup_conf) ! nat 2) (contact (cl dup_conf)) = [0, 2]
   \<and> \<not> accepted (contact (cl dup_conf) ! 0) \<and> accepted (contact (cl dup_conf) ! 2)
   \<and> strcmp (onion_id (me dup_conf)) (onion_id (contact (cl dup_conf) ! nat 2)) > 0
   \<and> check_duplicates sample_headers 2 dup_conf = Some 0"
proof -
  have f: "\<not> accepted (contact (cl dup_conf) ! 0)" "accepted (contact (cl dup_conf) ! 2)"
    by (simp_all add: dup_conf_def peer_def)
  have g: "strcmp (onion_id (me dup_conf)) (onion_id (contact (cl dup_conf) ! nat 2)) > 0"
    by (simp add: dup_conf_def peer_def addr_m_def addr_a_def)
  have "(0::int) \<le> 2" "2 < cl_size (cl dup_conf)" "(0::nat) \<in> {0, 2}" "(2::nat) \<in> {0, 2}"
    by (simp_all add: dup_conf_def)
  from check_duplicates_tie_break[OF sample_headers_ok dup_confs_wf(1) this(1,2)
      dup_occurrences(1) this(3,4) f] g
  have "check_duplicates sample_headers 2 dup_conf = Some 0" by simp
  then show ?thesis
    using sample_headers_ok dup_confs_wf(1) dup_occurrences(1) f g by simp
qed

text \<open>
  As stated, with \<open>accept_side\<close> for equal address and port, the claim fails: the
  first search of \<^verbatim>\<open>check_duplicates\<close> finds \<^verbatim>\<open>_cnf->me\<close>, and the index
  asked about is returned, here the slot of the contact that was connected to.
\<close>

theorem check_duplicates_self_counterexample:
  "occurrences (contact (cl dup_self_conf) ! 0) (contact (cl dup_self_conf)) = [0, 1]
   \<and> \<not> accepted (contact (cl dup_self_conf) ! 0)
   \<and> accepted (contact (cl dup_self_conf) ! 1)
   \<and> onion_id (me dup_self_conf) = onion_id (contact (cl dup_self_conf) ! 0)
   \<and> lport (me dup_self_conf) = lport (contact (cl dup_self_conf) ! 0)
   \<and> check_duplicates sample_headers 0 dup_self_conf = Some 0
   \<and> check_duplicates sample_headers 0 dup_self_conf \<noteq> Some 1"
proof -
  have "check_duplicates sample_headers 0 dup_self_conf = Some 0"
    using check_duplicates_pair[OF sample_headers_ok dup_confs_wf(4) _ _ dup_occurrences(4)]
    by (simp add: dup_self_conf_def peer_def same_peer_def)
  then show ?thesis
    using dup_occurrences(4) by (simp add: dup_self_conf_def peer_def)
qed

text \<open>
  C4 (determinism and agreement), as amended. Let two peers with different identities
  (address or port) each hold exactly two confirmed entries for the other, with
  differing \<open>accepted\<close> flags. Then \<^verbatim>\<open>check_duplicates\<close> evicts the entry with the
  same \<open>accepted\<close> flag whatever the positions of the two entries are and whichever of
  them it is asked about (\<open>cnfA\<close> and \<open>cnfA'\<close>), and the remote peer (\<open>cnfB\<close>)
  evicts the entry with the opposite flag, which is its end of the same link.
\<close>

theorem check_duplicates_agreement:
  assumes ok: "headers_ok h"
    and A: "conf_wf h cnfA" "0 \<le> nA" "nA < cl_size (cl cnfA)"
      "occurrences (contact (cl cnfA) ! nat nA) (contact (cl cnfA)) = [iA, jA]"
      "accepted (contact (cl cnfA) ! iA) \<noteq> accepted (contact (cl cnfA) ! jA)"
    and A': "conf_wf h cnfA'" "0 \<le> nA'" "nA' < cl_size (cl cnfA')"
      "occurrences (contact (cl cnfA') ! nat nA') (contact (cl cnfA')) = [iA', jA']"
      "accepted (contact (cl cnfA') ! iA') \<noteq> accepted (contact (cl cnfA') ! jA')"
    and same: "same_peer (me cnfA') (me cnfA)"
      "same_peer (contact (cl cnfA') ! nat nA') (contact (cl cnfA) ! nat nA)"
    and B: "conf_wf h cnfB" "0 \<le> nB" "nB < cl_size (cl cnfB)"
      "occurrences (contact (cl cnfB) ! nat nB) (contact (cl cnfB)) = [iB, jB]"
      "accepted (contact (cl cnfB) ! iB) \<noteq> accepted (contact (cl cnfB) ! jB)"
    and cross: "same_peer (me cnfB) (contact (cl cnfA) ! nat nA)"
      "same_peer (contact (cl cnfB) ! nat nB) (me cnfA)"
    and differ: "\<not> same_peer (me cnfA) (me cnfB)"
  shows "\<exists>rA rA' rB.
           check_duplicates h nA cnfA = Some (int rA) \<and> rA \<in> {iA, jA}
         \<and> check_duplicates h nA' cnfA' = Some (int rA') \<and> rA' \<in> {iA', jA'}
         \<and> check_duplicates h nB cnfB = Some (int rB) \<and> rB \<in> {iB, jB}
         \<and> accepted (contact (cl cnfA') ! rA') = accepted (contact (cl cnfA) ! rA)
         \<and> accepted (contact (cl cnfB) ! rB) = (\<not> accepted (contact (cl cnfA) ! rA))"
proof -
  let ?a = "me cnfA" and ?b = "contact (cl cnfA) ! nat nA"
  let ?a' = "me cnfA'" and ?b' = "contact (cl cnfA') ! nat nA'"
  let ?mb = "me cnfB" and ?ea = "contact (cl cnfB) ! nat nB"
  have nsA: "\<not> same_peer ?a ?b" using differ cross(1) by (auto simp: same_peer_def)
  have nsA': "\<not> same_peer ?a' ?b'" using nsA same by (auto simp: same_peer_def)
  have nsB: "\<not> same_peer ?mb ?ea" using differ cross by (auto simp: same_peer_def)
  from evicted_flag[OF ok A nsA] obtain rA where rA:
    "check_duplicates h nA cnfA = Some (int rA)" "rA \<in> {iA, jA}"
    "accepted (contact (cl cnfA) ! rA) = (\<not> self_greater ?a ?b)" by blast
  from evicted_flag[OF ok A' nsA'] obtain rA' where rA':
    "check_duplicates h nA' cnfA' = Some (int rA')" "rA' \<in> {iA', jA'}"
    "accepted (contact (cl cnfA') ! rA') = (\<not> self_greater ?a' ?b')" by blast
  from evicted_flag[OF ok B nsB] obtain rB where rB:
    "check_duplicates h nB cnfB = Some (int rB)" "rB \<in> {iB, jB}"
    "accepted (contact (cl cnfB) ! rB) = (\<not> self_greater ?mb ?ea)" by blast
  have 1: "self_greater ?a' ?b' = self_greater ?a ?b"
    by (rule self_greater_cong[OF same])
  have "self_greater ?mb ?ea = self_greater ?b ?a"
    by (rule self_greater_cong[OF cross])
  also have "\<dots> = (\<not> self_greater ?a ?b)"
    by (rule self_greater_swap[OF nsA])
  finally have 2: "self_greater ?mb ?ea = (\<not> self_greater ?a ?b)" .
  show ?thesis using rA rA' rB 1 2 by blast
qed

theorem check_duplicates_agreement_witness:
  "check_duplicates sample_headers 2 dup_conf = Some 0
   \<and> check_duplicates sample_headers 0 dup_conf_swapped = Some 2
   \<and> check_duplicates sample_headers 0 dup_conf_remote = Some 0
   \<and> accepted (contact (cl dup_conf_swapped) ! 2) = accepted (contact (cl dup_conf) ! 0)
   \<and> accepted (contact (cl dup_conf_remote) ! 0) = (\<not> accepted (contact (cl dup_conf) ! 0))"
proof -
  have A: "(0::int) \<le> 2" "2 < cl_size (cl dup_conf)"
    "accepted (contact (cl dup_conf) ! 0) \<noteq> accepted (contact (cl dup_conf) ! 2)"
    by (simp_all add: dup_conf_def peer_def)
  have A': "(0::int) \<le> 0" "0 < cl_size (cl dup_conf_swapped)"
    "accepted (contact (cl dup_conf_swapped) ! 0) \<noteq> accepted (contact (cl dup_conf_swapped) ! 2)"
    by (simp_all add: dup_conf_swapped_def peer_def)
  have B: "(0::int) \<le> 0" "0 < cl_size (cl dup_conf_remote)"
    "accepted (contact (cl dup_conf_remote) ! 0) \<noteq> accepted (contact (cl dup_conf_remote) ! 1)"
    by (simp_all add: dup_conf_remote_def peer_def)
  have same: "same_peer (me dup_conf_swapped) (me dup_conf)"
    "same_peer (contact (cl dup_conf_swapped) ! nat 0) (contact (cl dup_conf) ! nat 2)"
    by (simp_all add: same_peer_def dup_conf_def dup_conf_swapped_def peer_def)
  have cross: "same_peer (me dup_conf_remote) (contact (cl dup_conf) ! nat 2)"
    "same_peer (contact (cl dup_conf_remote) ! nat 0) (me dup_conf)"
    by (simp_all add: same_peer_def dup_conf_def dup_conf_remote_def peer_def)
  have differ: "\<not> same_peer (me dup_conf) (me dup_conf_remote)"
    by (simp add: same_peer_def dup_conf_def dup_conf_remote_def peer_def)
  from check_duplicates_agreement[OF sample_headers_ok
      dup_confs_wf(1) A(1,2) dup_occurrences(1) A(3)
      dup_confs_wf(2) A'(1,2) dup_occurrences(2) A'(3) same
      dup_confs_wf(3) B(1,2) dup_occurrences(3) B(3) cross differ]
  obtain rA rA' rB where r:
    "check_duplicates sample_headers 2 dup_conf = Some (int rA)" "rA \<in> {0, 2}"
    "check_duplicates sample_headers 0 dup_conf_swapped = Some (int rA')" "rA' \<in> {0, 2}"
    "check_duplicates sample_headers 0 dup_conf_remote = Some (int rB)" "rB \<in> {0, 1}"
    "accepted (contact (cl dup_conf_swapped) ! rA') = accepted (contact (cl dup_conf) ! rA)"
    "accepted (contact (cl dup_conf_remote) ! rB) = (\<not> accepted (contact (cl dup_conf) ! rA))"
    by blast
  have e: "check_duplicates sample_headers 2 dup_conf = Some 0"
    using check_duplicates_pair[OF sample_headers_ok dup_confs_wf(1) A(1,2) dup_occurrences(1)]
    by (simp add: dup_conf_def peer_def same_peer_def self_greater_def addr_a_def addr_m_def)
  with r(1) have rA: "rA = 0" by simp
  from r(2-) show ?thesis unfolding rA using e 
    by (auto simp: dup_conf_def dup_conf_swapped_def dup_conf_remote_def peer_def)
qed

text \<open>
  Without different identities the claim fails: when both peers announce the same
  address and port, each takes the other for itself and evicts the entry it is asked
  about. Here both evict the entry they connected with, which are the two different
  links.
\<close>

theorem check_duplicates_agreement_counterexample:
  "occurrences (contact (cl dup_self_conf) ! 0) (contact (cl dup_self_conf)) = [0, 1]
   \<and> occurrences (contact (cl dup_self_remote) ! 1) (contact (cl dup_self_remote)) = [0, 1]
   \<and> accepted (contact (cl dup_self_conf) ! 0) \<noteq> accepted (contact (cl dup_self_conf) ! 1)
   \<and> accepted (contact (cl dup_self_remote) ! 0) \<noteq> accepted (contact (cl dup_self_remote) ! 1)
   \<and> same_peer (me dup_self_remote) (contact (cl dup_self_conf) ! 0)
   \<and> same_peer (me dup_self_conf) (contact (cl dup_self_remote) ! 1)
   \<and> check_duplicates sample_headers 0 dup_self_conf = Some 0
   \<and> check_duplicates sample_headers 1 dup_self_remote = Some 1
   \<and> accepted (contact (cl dup_self_conf) ! 0) = accepted (contact (cl dup_self_remote) ! 1)"
proof -
  have a: "check_duplicates sample_headers 0 dup_self_conf = Some 0"
    using check_duplicates_pair[OF sample_headers_ok dup_confs_wf(4) _ _ dup_occurrences(4)]
    by (simp add: dup_self_conf_def peer_def same_peer_def)
  have b: "check_duplicates sample_headers 1 dup_self_remote = Some 1"
    using check_duplicates_pair[OF sample_headers_ok dup_confs_wf(5) _ _ dup_occurrences(5)]
    by (simp add: dup_self_remote_def peer_def same_peer_def)
  show ?thesis
    using a b dup_occurrences(4,5)
    by (simp add: dup_self_conf_def dup_self_remote_def peer_def same_peer_def)
qed

subsection \<open>Receiving a contact list\<close>

text \<open>
  On the two well-formed lines of \<open>two_lines_pdu\<close>, with an empty contact list and
  connection requests that succeed, \<^verbatim>\<open>receive_contacts\<close> returns 2.
\<close>

lemma get_content_part_two_lines:
  "get_content_part two_lines_pdu 0 (CHR 0x0A) = Some (27, ''aaaaaaaaaaaaaaaa.onion 9001\<newline>'')"
  "get_content_part two_lines_pdu 28 (CHR 0x0A) = Some (55, ''bbbbbbbbbbbbbbbb.onion 9002\<newline>'')"
  by (simp_all add: get_content_part_def two_lines_pdu_def)

lemma string_to_contact_two_lines:
  "string_to_contact sample_headers c ''aaaaaaaaaaaaaaaa.onion 9001\<newline>''
     = Some (c\<lparr>lport := 9001, onion_id := addr_a\<rparr>)"
  "string_to_contact sample_headers c ''bbbbbbbbbbbbbbbb.onion 9002\<newline>''
     = Some (c\<lparr>lport := 9002, onion_id := addr_b\<rparr>)"
  by (simp_all add: string_to_contact_def strtok_r_def sample_headers_def sample_onion_def
      is_base32_def strtol_def isspace_def isdigit_def digits_val_def digit_val_def
      int_cast_def is_valid_port_def addr_a_def addr_b_def)

lemma find_contact_empty_store:
  assumes "valid_contact sample_headers c" and "\<not> same_peer c (peer addr_m 7000 0 False)"
  shows "find_contact sample_headers (empty_store (peer addr_m 7000 0 False) 2) c 0 = Some (- 2)"
proof -
  let ?cnf = "empty_store (peer addr_m 7000 0 False) 2"
  have wf: "conf_wf sample_headers ?cnf"
    by (simp add: conf_wf_def empty_store_def filled_def lport_zero_contact valid_sample_peers)
  have "find_loop sample_headers ?cnf c 0 = Some (- 2)"
  proof (rule find_loop_none[OF sample_headers_ok wf assms(1)])
    show "\<forall>m. 0 \<le> m \<and> m < cl_size (cl ?cnf) \<longrightarrow>
            \<not> (lport (contact (cl ?cnf) ! nat m) \<noteq> 0 \<and> same_peer c (contact (cl ?cnf) ! nat m))"
    proof (intro allI impI)
      fix m :: int assume "0 \<le> m \<and> m < cl_size (cl ?cnf)"
      then have "m < 2" by (simp add: empty_store_def filled_def)
      then have "nat m < 2" by linarith
      then have "contact (cl ?cnf) ! nat m = zero_contact"
        by (simp add: empty_store_def filled_def)
      then show "\<not> (lport (contact (cl ?cnf) ! nat m) \<noteq> 0 \<and> same_peer c (contact (cl ?cnf) ! nat m))"
        by (simp add: lport_zero_contact)
    qed
  qed simp
  then show ?thesis
    using find_contact_not_self[OF sample_headers_ok wf assms(1), of 0] assms(2)
    by (simp add: empty_store_def filled_def)
qed

lemma receive_contacts_two_lines:
  "receive_contacts 3 sample_headers (\<lambda>a p cnf. (0, cnf)) zero_contact two_lines_pdu
     (empty_store (peer addr_m 7000 0 False) 2)
   = Returns (2, empty_store (peer addr_m 7000 0 False) 2)"
proof -
  let ?cnf = "empty_store (peer addr_m 7000 0 False) 2"
  let ?c1 = "zero_contact\<lparr>lport := 9001, onion_id := addr_a\<rparr>"
  let ?c2 = "zero_contact\<lparr>lport := 9002, onion_id := addr_b\<rparr>"
  have v: "valid_contact sample_headers ?c1" "valid_contact sample_headers ?c2"
    by (simp_all add: valid_contact_def sample_headers_def sample_onion_addr is_valid_port_def)
  have ns: "\<not> same_peer ?c1 (peer addr_m 7000 0 False)" "\<not> same_peer ?c2 (peer addr_m 7000 0 False)"
    by (simp_all add: same_peer_def peer_def)
  note f = find_contact_empty_store[OF v(1) ns(1)] find_contact_empty_store[OF v(2) ns(2)]
  have 3: "(3::nat) = Suc (Suc (Suc 0))" by simp
  have len: "content_length two_lines_pdu = 56" by (simp add: two_lines_pdu_def)
  show ?thesis
    unfolding receive_contacts_def 3
    by (simp add: get_content_part_two_lines string_to_contact_two_lines f len)
qed

lemma string_to_contact_newline: "string_to_contact h c [CHR 0x0A] = None"
  by (simp add: string_to_contact_def strtok_r_def)

lemma get_content_part_bad_pdu:
  "get_content_part bad_pdu 0 (CHR 0x0A) = Some (1, ''x\<newline>'')"
  "get_content_part bad_pdu 1 (CHR 0x0A) = Some (1, [CHR 0x0A])"
  by (simp_all add: get_content_part_def bad_pdu_def)

lemma string_to_contact_x: "string_to_contact h c ''x\<newline>'' = None"
  by (simp add: string_to_contact_def strtok_r_def)

lemma receive_loop_stuck:
  "line_end st = 1 \<Longrightarrow> receive_loop fuel h connect bad_pdu st = Out_Of_Fuel"
proof (induction fuel arbitrary: st)
  case 0
  show ?case by simp
next
  case (Suc fuel)
  have "receive_loop (Suc fuel) h connect bad_pdu st
          = receive_loop fuel h connect bad_pdu (st\<lparr>line_end := 1, ret := - 1\<rparr>)"
    using Suc.prems
    by (simp add: get_content_part_bad_pdu string_to_contact_newline) (simp add: bad_pdu_def)
  then show ?case using Suc.IH[of "st\<lparr>line_end := 1, ret := - 1\<rparr>"] by simp
qed

text \<open>
  C10 (every line is processed) fails on the code. The claim: \<^verbatim>\<open>receive_contacts\<close>
  terminates, and after a line that fails to decode it continues with the next line.
  The \<^verbatim>\<open>continue\<close> after the failure skips \<^verbatim>\<open>line_end++\<close>, so the next
  line is extracted from the offset of the terminator itself: it is the terminator
  alone, fails to decode too, and leaves \<open>line_end\<close> where it is. On the message
  \<open>bad_pdu\<close> the loop has not returned after any number of iterations.
\<close>

theorem receive_contacts_bad_line_loops:
  "receive_contacts fuel h connect c0 bad_pdu cnf = Out_Of_Fuel"
proof (cases fuel)
  case 0
  then show ?thesis by (simp add: receive_contacts_def)
next
  case (Suc k)
  have "receive_loop (Suc k) h connect bad_pdu
          \<lparr>rcontact = c0, ret = 0, new_contacts = 0, known_contacts = 0, line_end = 0, conf = cnf\<rparr>
        = receive_loop k h connect bad_pdu
          \<lparr>rcontact = c0, ret = - 1, new_contacts = 0, known_contacts = 0, line_end = 1, conf = cnf\<rparr>"
    by (simp add: get_content_part_bad_pdu string_to_contact_x) (simp add: bad_pdu_def)
  then show ?thesis
    using Suc receive_loop_stuck[of _ k h connect] by (simp add: receive_contacts_def)
qed

end
